theory Spec2Isabelle
  imports Complex_Main "HOL-Library.Word" "HOL-Library.Log_Nat"
begin

section \<open>JavaScript strings\<close>

text \<open>
  Host names, IP literals, header values and error messages are modelled as
  \<open>string\<close>: one \<open>char\<close> per code unit, which covers the code units
  U+0000 to U+00FF. Host names of parsed URLs and the addresses a DNS lookup
  returns are ASCII; header values are byte strings.
\<close>

definition toLowerChar :: "char \<Rightarrow> char" where
  \<comment> \<open>\<open>String.prototype.toLowerCase\<close> on one code unit below U+0100: A-Z and the
      Latin-1 capitals U+00C0..U+00DE (but not the multiplication sign U+00D7)
      move up by 32.\<close>
  "toLowerChar c =
     (let n = (of_char c :: nat) in
      if (65 \<le> n \<and> n \<le> 90) \<or> (192 \<le> n \<and> n \<le> 222 \<and> n \<noteq> 215)
      then char_of (n + 32) else c)"

definition toLowerCase :: "string \<Rightarrow> string" where
  "toLowerCase s = map toLowerChar s"

fun startsWith :: "string \<Rightarrow> string \<Rightarrow> bool" where
  "startsWith s [] = True"
| "startsWith [] (p # ps) = False"
| "startsWith (c # cs) (p # ps) = (c = p \<and> startsWith cs ps)"

definition endsWith :: "string \<Rightarrow> string \<Rightarrow> bool" where
  "endsWith s p = startsWith (rev s) (rev p)"

fun js_includes :: "string \<Rightarrow> string \<Rightarrow> bool" where
  \<comment> \<open>\<open>s.includes(sub)\<close>: \<open>sub\<close> occurs in \<open>s\<close> at some position.\<close>
  "js_includes [] sub = (sub = [])"
| "js_includes (c # cs) sub = (startsWith (c # cs) sub \<or> js_includes cs sub)"

fun split_on :: "char \<Rightarrow> string \<Rightarrow> string list" where
  \<comment> \<open>\<open>s.split(sep)\<close> for a one-character separator; never the empty list.\<close>
  "split_on sep [] = [[]]"
| "split_on sep (c # cs) =
     (if c = sep then [] # split_on sep cs
      else (c # hd (split_on sep cs)) # tl (split_on sep cs))"

fun replace_first :: "string \<Rightarrow> string \<Rightarrow> string \<Rightarrow> string" where
  \<comment> \<open>\<open>s.replace(pat, rep)\<close> with a string pattern: the first occurrence only.\<close>
  "replace_first pat rep [] = (if pat = [] then rep else [])"
| "replace_first pat rep (c # cs) =
     (if startsWith (c # cs) pat then rep @ drop (length pat) (c # cs)
      else c # replace_first pat rep cs)"

definition is_digit :: "char \<Rightarrow> bool" where
  "is_digit c = (c \<in> set ''0123456789'')"

definition is_hex_digit :: "char \<Rightarrow> bool" where
  "is_hex_digit c = (c \<in> set ''0123456789abcdefABCDEF'')"

definition digit_val :: "char \<Rightarrow> int" where
  "digit_val c = int (of_char c) - 48"

fun decimal_acc :: "int \<Rightarrow> string \<Rightarrow> int" where
  "decimal_acc acc [] = acc"
| "decimal_acc acc (c # cs) = decimal_acc (10 * acc + digit_val c) cs"

definition decimal :: "string \<Rightarrow> int" where
  \<comment> \<open>the value of a string of decimal digits\<close>
  "decimal s = decimal_acc 0 s"

section \<open>\<open>net.isIP\<close>\<close>

text \<open>
  \<open>net.isIP\<close> belongs to the Node.js runtime, not to the repository. It is
  modelled from its documented behaviour: 4 for four dot-separated decimal
  octets 0..255 without leading zeros, 6 for an IPv6 address in text form
  (eight groups of one to four hexadecimal digits, at most one \<open>::\<close> standing
  for one or more zero groups, an optional dotted IPv4 tail in place of the
  last two groups, an optional \<open>%zone\<close> suffix), and 0 otherwise.
\<close>

fun v4Seg :: "string \<Rightarrow> bool" where
  "v4Seg [a] = is_digit a"
| "v4Seg [a, b] = (a \<in> set ''123456789'' \<and> is_digit b)"
| "v4Seg [a, b, c] =
     ((a = CHR ''1'' \<and> is_digit b \<and> is_digit c) \<or>
      (a = CHR ''2'' \<and> b \<in> set ''01234'' \<and> is_digit c) \<or>
      (a = CHR ''2'' \<and> b = CHR ''5'' \<and> c \<in> set ''012345''))"
| "v4Seg _ = False"

definition isIPv4 :: "string \<Rightarrow> bool" where
  "isIPv4 s =
     (case split_on CHR ''.'' s of
        [a, b, c, d] \<Rightarrow> v4Seg a \<and> v4Seg b \<and> v4Seg c \<and> v4Seg d
      | _ \<Rightarrow> False)"

definition v6Seg :: "string \<Rightarrow> bool" where
  "v6Seg s = (1 \<le> length s \<and> length s \<le> 4 \<and> list_all is_hex_digit s)"

fun split_dcolon :: "string \<Rightarrow> (string \<times> string) option" where
  \<comment> \<open>the text before and after the first \<open>::\<close>\<close>
  "split_dcolon (a # b # cs) =
     (if a = CHR '':'' \<and> b = CHR '':'' then Some ([], cs)
      else map_option (\<lambda>(l, r). (a # l, r)) (split_dcolon (b # cs)))"
| "split_dcolon _ = None"

definition v6Groups :: "string \<Rightarrow> string list" where
  "v6Groups s = (if s = [] then [] else split_on CHR '':'' s)"

definition v6Addr :: "string \<Rightarrow> bool" where
  "v6Addr a =
     (case split_dcolon a of
        None \<Rightarrow>
          (let g = split_on CHR '':'' a in
           (length g = 8 \<and> list_all v6Seg g) \<or>
           (length g = 7 \<and> list_all v6Seg (butlast g) \<and> isIPv4 (last g)))
      | Some (l, r) \<Rightarrow>
          (let L = v6Groups l; R = v6Groups r in
           list_all v6Seg L \<and>
           ((list_all v6Seg R \<and> length L + length R \<le> 7) \<or>
            (R \<noteq> [] \<and> list_all v6Seg (butlast R) \<and> isIPv4 (last R) \<and>
             length L + length R + 1 \<le> 7))))"

definition v6ZoneChar :: "char \<Rightarrow> bool" where
  "v6ZoneChar c =
     (c \<in> set ''0123456789abcdefghijklmnopqrstuvwxyzABCDEFGHIJKLMNOPQRSTUVWXYZ-.:'')"

definition isIPv6 :: "string \<Rightarrow> bool" where
  "isIPv6 s =
     (let addr = takeWhile (\<lambda>c. c \<noteq> CHR ''%'') s;
          rest = dropWhile (\<lambda>c. c \<noteq> CHR ''%'') s
      in v6Addr addr \<and> (rest = [] \<or> (tl rest \<noteq> [] \<and> list_all v6ZoneChar (tl rest))))"

definition isIP :: "string \<Rightarrow> nat" where
  "isIP s = (if isIPv4 s then 4 else if isIPv6 s then 6 else 0)"

section \<open>\<open>Number(string)\<close>\<close>

text \<open>
  \<open>Number\<close> applied to a string follows the StringNumericLiteral grammar of
  ECMAScript: surrounding white space is dropped, the empty string is 0, a
  literal is an optionally signed decimal (with optional fraction and
  exponent, or \<open>Infinity\<close>) or an unsigned \<open>0x\<close>, \<open>0o\<close>, \<open>0b\<close> integer, and
  everything else is \<open>NaN\<close>. The mathematical value of a literal is rounded to
  a double: to the nearest one, to the even one of two nearest, to an infinity
  from \<open>2^1024 - 2^970\<close> on, and to zero up to half of the least subnormal. The
  two zeros are one value here, since \<open>===\<close> and \<open>>=\<close> do not tell them apart.
\<close>

datatype jsnum = NaN | Fin rat | PosInf | NegInf

definition pow2 :: "int \<Rightarrow> rat" where
  "pow2 e = (if 0 \<le> e then 2 ^ nat e else 1 / 2 ^ nat (- e))"

definition binade :: "rat \<Rightarrow> int" where
  \<comment> \<open>for a positive \<open>v\<close>, the exponent \<open>e\<close> with \<open>2^e \<le> v < 2^(e+1)\<close>\<close>
  "binade v =
     (let (p, q) = quotient_of v; g = bitlen p - bitlen q
      in if pow2 g \<le> v then g else g - 1)"

definition round_half_even :: "rat \<Rightarrow> int" where
  "round_half_even x =
     (let f = \<lfloor>x\<rfloor>; r = x - of_int f
      in if r < 1 / 2 then f else if 1 / 2 < r then f + 1
         else if even f then f else f + 1)"

definition to_double :: "rat \<Rightarrow> jsnum" where
  \<comment> \<open>The Number value for a mathematical value. An integer of magnitude at
      most \<open>2^53\<close> is a double and is its own rounding; any other value is
      rounded to a multiple of the unit in the last place of its binade (of the
      binade \<open>-1022\<close> for subnormals).\<close>
  "to_double v =
     (if of_int \<lfloor>v\<rfloor> = v \<and> \<bar>v\<bar> \<le> 2 ^ 53 then Fin v
      else
        let a = \<bar>v\<bar>;
            e = max (binade a) (- 1022);
            ulp = pow2 (e - 52);
            r = of_int (round_half_even (a / ulp)) * ulp
        in if pow2 1024 \<le> r then (if v < 0 then NegInf else PosInf)
           else Fin (if v < 0 then - r else r))"

definition js_whitespace :: "char \<Rightarrow> bool" where
  "js_whitespace c = ((of_char c :: nat) \<in> {9, 10, 11, 12, 13, 32, 160})"

definition js_trim :: "string \<Rightarrow> string" where
  "js_trim s = rev (dropWhile js_whitespace (rev (dropWhile js_whitespace s)))"

definition hex_val :: "char \<Rightarrow> int" where
  "hex_val c =
     (if is_digit c then int (of_char c) - 48
      else if c \<in> set ''abcdef'' then int (of_char c) - 87
      else int (of_char c) - 55)"

fun radix_acc :: "int \<Rightarrow> int \<Rightarrow> string \<Rightarrow> int" where
  "radix_acc r acc [] = acc"
| "radix_acc r acc (c # cs) = radix_acc r (r * acc + hex_val c) cs"

definition radix_literal :: "int \<Rightarrow> string \<Rightarrow> string \<Rightarrow> jsnum" where
  \<comment> \<open>the digits after a \<open>0x\<close>, \<open>0o\<close> or \<open>0b\<close> prefix\<close>
  "radix_literal r allowed ds =
     (if ds \<noteq> [] \<and> list_all (\<lambda>c. c \<in> set allowed) ds
      then to_double (of_int (radix_acc r 0 ds)) else NaN)"

definition pow10 :: "int \<Rightarrow> rat" where
  "pow10 e = (if 0 \<le> e then 10 ^ nat e else 1 / 10 ^ nat (- e))"

definition digits_opt :: "string \<Rightarrow> int option" where
  "digits_opt s = (if s \<noteq> [] \<and> list_all is_digit s then Some (decimal s) else None)"

definition signed_integer :: "string \<Rightarrow> int option" where
  "signed_integer s =
     (case s of
        [] \<Rightarrow> None
      | c # cs \<Rightarrow>
          if c = CHR ''+'' then digits_opt cs
          else if c = CHR ''-'' then map_option uminus (digits_opt cs)
          else digits_opt s)"

definition unsigned_decimal :: "string \<Rightarrow> jsnum" where
  "unsigned_decimal s =
     (if s = ''Infinity'' then PosInf
      else
        let m = takeWhile (\<lambda>c. c \<noteq> CHR ''e'' \<and> c \<noteq> CHR ''E'') s;
            ex = dropWhile (\<lambda>c. c \<noteq> CHR ''e'' \<and> c \<noteq> CHR ''E'') s;
            ip = takeWhile (\<lambda>c. c \<noteq> CHR ''.'') m;
            fr = tl (dropWhile (\<lambda>c. c \<noteq> CHR ''.'') m)
        in if \<not> list_all is_digit ip \<or> \<not> list_all is_digit fr \<or> (ip = [] \<and> fr = [])
           then NaN
           else (case (if ex = [] then Some 0 else signed_integer (tl ex)) of
                   None \<Rightarrow> NaN
                 | Some e \<Rightarrow>
                     to_double (of_int (decimal (ip @ fr)) * pow10 (e - int (length fr)))))"

fun js_negate :: "jsnum \<Rightarrow> jsnum" where
  "js_negate NaN = NaN"
| "js_negate (Fin r) = Fin (- r)"
| "js_negate PosInf = NegInf"
| "js_negate NegInf = PosInf"

definition js_Number :: "string \<Rightarrow> jsnum" where
  "js_Number s =
     (let t = js_trim s in
      if t = [] then Fin 0
      else if startsWith t ''0x'' \<or> startsWith t ''0X''
        then radix_literal 16 ''0123456789abcdefABCDEF'' (drop 2 t)
      else if startsWith t ''0o'' \<or> startsWith t ''0O''
        then radix_literal 8 ''01234567'' (drop 2 t)
      else if startsWith t ''0b'' \<or> startsWith t ''0B''
        then radix_literal 2 ''01'' (drop 2 t)
      else if startsWith t ''+'' then unsigned_decimal (tl t)
      else if startsWith t ''-'' then js_negate (unsigned_decimal (tl t))
      else unsigned_decimal t)"

fun isNaN :: "jsnum \<Rightarrow> bool" where
  "isNaN NaN = True"
| "isNaN _ = False"

fun js_eq :: "jsnum \<Rightarrow> rat \<Rightarrow> bool" where
  \<comment> \<open>\<open>x === k\<close> for a finite constant \<open>k\<close>\<close>
  "js_eq (Fin r) k = (r = k)"
| "js_eq _ k = False"

fun js_ge :: "jsnum \<Rightarrow> rat \<Rightarrow> bool" where
  "js_ge (Fin r) k = (k \<le> r)"
| "js_ge PosInf k = True"
| "js_ge _ k = False"

fun js_le :: "jsnum \<Rightarrow> rat \<Rightarrow> bool" where
  "js_le (Fin r) k = (r \<le> k)"
| "js_le NegInf k = True"
| "js_le _ k = False"

section \<open>Target safety (the security module)\<close>

definition isPrivateIPv4 :: "string \<Rightarrow> bool" where
  "isPrivateIPv4 ip =
     (let parts = map js_Number (split_on CHR ''.'' ip) in
      if length parts \<noteq> 4 \<or> list_ex isNaN parts then True
      else
        let a = parts ! 0; b = parts ! 1 in
        if js_eq a 10 \<or> js_eq a 127 \<or> js_eq a 0 then True
        else if js_eq a 169 \<and> js_eq b 254 then True
        else if js_eq a 172 \<and> js_ge b 16 \<and> js_le b 31 then True
        else if js_eq a 192 \<and> js_eq b 168 then True
        else if js_eq a 100 \<and> js_ge b 64 \<and> js_le b 127 then True
        else if js_ge a 224 then True
        else False)"

definition isPrivateIPv6 :: "string \<Rightarrow> bool" where
  "isPrivateIPv6 ip =
     (let normalized = toLowerCase ip in
      normalized = ''::1'' \<or>
      normalized = ''::'' \<or>
      startsWith normalized ''fc'' \<or>
      startsWith normalized ''fd'' \<or>
      startsWith normalized ''fe8'' \<or>
      startsWith normalized ''fe9'' \<or>
      startsWith normalized ''fea'' \<or>
      startsWith normalized ''feb'')"

definition isPrivateIp :: "string \<Rightarrow> bool" where
  "isPrivateIp ip =
     (let family = isIP ip in
      if family = 4 then isPrivateIPv4 ip
      else if family = 6 then
        (if startsWith ip ''::ffff:'' \<and> isIP (replace_first ''::ffff:'' [] ip) = 4
         then isPrivateIPv4 (replace_first ''::ffff:'' [] ip)
         else isPrivateIPv6 ip)
      else True)"

text \<open>
  A thrown value: an \<open>Error\<close> object with its name and message, or any other
  value, with the text that \<open>String(value)\<close> gives.
\<close>

datatype error =
    Error (name: string) (message: string)
  | NonError (rendering: string)

definition new_Error :: "string \<Rightarrow> error" where
  \<comment> \<open>\<open>new Error(msg)\<close>\<close>
  "new_Error msg = Error ''Error'' msg"

record LookupAddress =
  address :: string
  family :: nat

type_synonym dns_lookup = "string \<Rightarrow> error + LookupAddress list"

fun check_records :: "LookupAddress list \<Rightarrow> error + unit" where
  \<comment> \<open>the loop over the resolved records\<close>
  "check_records [] = Inr ()"
| "check_records (r # rs) =
     (if isPrivateIp (address r)
      then Inl (new_Error ''Resolved to a private IP range, request blocked.'')
      else check_records rs)"

definition assertSafeTarget :: "dns_lookup \<Rightarrow> string \<Rightarrow> error + unit" where
  \<comment> \<open>The argument is \<open>url.hostname\<close>: for a parsed URL a domain name, a
      dotted IPv4 address, or an IPv6 address between square brackets.
      \<open>lookup\<close> is \<open>dns.lookup(host, {all: true, verbatim: true})\<close>, whose
      rejection is passed on. The result \<open>Inr ()\<close> is the normal return.\<close>
  "assertSafeTarget lookup hostname =
     (let host = toLowerCase hostname in
      if host = ''localhost'' \<or> endsWith host ''.local''
        then Inl (new_Error ''Local targets are blocked.'')
      else if isIP host \<noteq> 0
        then (if isPrivateIp host then Inl (new_Error ''Private IP ranges are blocked.'')
              else Inr ())
      else (case lookup host of
              Inl e \<Rightarrow> Inl e
            | Inr records \<Rightarrow>
                if length records = 0 then Inl (new_Error ''Could not resolve hostname.'')
                else check_records records))"

section \<open>Rate limiting (the in-process fallback and the shared backend)\<close>

definition LIMIT :: nat where
  "LIMIT = 30"

definition WINDOW_MS :: int where
  "WINDOW_MS = 10 * 60 * 1000"

record RateLimitResult =
  success :: bool
  limit :: int
  remaining :: int
  reset :: int

type_synonym store = "string \<rightharpoonup> int list"

definition enforceRateLimit ::
  "(string \<Rightarrow> RateLimitResult) option \<Rightarrow> int \<Rightarrow> store \<Rightarrow> string \<Rightarrow> RateLimitResult \<times> store"
where
  \<comment> \<open>\<open>upstashLimiter\<close> is the shared limiter when it is configured (its answer is
      copied field by field), \<open>now\<close> is \<open>Date.now()\<close>, and the module's \<open>store\<close>
      is passed in and returned.\<close>
  "enforceRateLimit upstashLimiter now store identifier =
     (case upstashLimiter of
        Some limiter \<Rightarrow>
          (let result = limiter identifier in
           (\<lparr>success = success result, limit = limit result,
             remaining = remaining result, reset = reset result\<rparr>, store))
      | None \<Rightarrow>
          (let bucket = (case store identifier of Some b \<Rightarrow> b | None \<Rightarrow> []);
               fresh = filter (\<lambda>timestamp. now - timestamp \<le> WINDOW_MS) bucket
           in if length fresh \<ge> LIMIT
              then (\<lparr>success = False, limit = int LIMIT, remaining = 0,
                     reset = fresh ! 0 + WINDOW_MS\<rparr>,
                    store(identifier \<mapsto> fresh))
              else (\<lparr>success = True, limit = int LIMIT,
                     remaining = max 0 (int LIMIT - int (length (fresh @ [now]))),
                     reset = now + WINDOW_MS\<rparr>,
                    store(identifier \<mapsto> fresh @ [now]))))"

fun run_checks ::
  "store \<Rightarrow> (string \<times> int) list \<Rightarrow> RateLimitResult list \<times> store" where
  \<comment> \<open>a sequence of calls on the fallback backend, each with its identifier and
      the time of the call\<close>
  "run_checks store [] = ([], store)"
| "run_checks store ((identifier, now) # calls) =
     (let (r, store') = enforceRateLimit None now store identifier;
          (rs, store'') = run_checks store' calls
      in (r # rs, store''))"

section \<open>The route handler: user agent, verdict, body reader, failures\<close>

type_synonym jsstring = "16 word list"
type_synonym byte = "8 word"

text \<open>
  The user agent and the body text are arbitrary JavaScript strings: lists of
  UTF-16 code units, so that \<open>length\<close> is the \<open>length\<close> of the source.
\<close>

definition utf16 :: "string \<Rightarrow> jsstring" where
  \<comment> \<open>a literal of the source as code units\<close>
  "utf16 s = map (\<lambda>c. of_nat (of_char c)) s"

definition js_whitespace16 :: "16 word \<Rightarrow> bool" where
  \<comment> \<open>WhiteSpace and LineTerminator of ECMAScript, which \<open>trim\<close> removes\<close>
  "js_whitespace16 c =
     (c \<in> {0x9, 0xA, 0xB, 0xC, 0xD, 0x20, 0xA0, 0x1680, 0x2028, 0x2029, 0x202F,
            0x205F, 0x3000, 0xFEFF} \<or> (0x2000 \<le> c \<and> c \<le> 0x200A))"

definition trim16 :: "jsstring \<Rightarrow> jsstring" where
  "trim16 s = rev (dropWhile js_whitespace16 (rev (dropWhile js_whitespace16 s)))"

definition DEFAULT_USER_AGENT :: jsstring where
  "DEFAULT_USER_AGENT =
     utf16 ''Mozilla/5.0 (compatible; MD-Checker/1.0; +https://md-check.dotversis.com)''"

definition replace_crlftab :: "jsstring \<Rightarrow> jsstring" where
  \<comment> \<open>\<open>input.replace(/[\r\n\t]/g, " ")\<close>\<close>
  "replace_crlftab s = map (\<lambda>c. if c = 0xD \<or> c = 0xA \<or> c = 0x9 then 0x20 else c) s"

definition sanitizeUserAgent :: "jsstring option \<Rightarrow> jsstring" where
  "sanitizeUserAgent input =
     (case input of
        None \<Rightarrow> DEFAULT_USER_AGENT
      | Some s \<Rightarrow>
          if s = [] \<or> trim16 s = [] then DEFAULT_USER_AGENT
          else take 220 (trim16 (replace_crlftab s)))"

definition isMarkdownContentType :: "string option \<Rightarrow> bool" where
  "isMarkdownContentType contentType =
     (case contentType of
        None \<Rightarrow> False
      | Some s \<Rightarrow> if s = [] then False else js_includes (toLowerCase s) ''text/markdown'')"

datatype body_source =
    NoReader "byte list"
  | Reader "byte list list" "error option"

text \<open>
  \<open>NoReader bytes\<close> is a response whose \<open>body\<close> gives no reader, with the bytes
  that \<open>response.text()\<close> decodes; \<open>Reader chunks fin\<close> is a stream whose reads
  deliver \<open>chunks\<close> in order and then end (\<open>fin = None\<close>) or fail
  (\<open>fin = Some e\<close>).
\<close>

record Response =
  status :: nat
  statusText :: string
  headers :: "string \<Rightarrow> string option"
  body :: body_source

record Verdict =
  found :: bool
  reason :: string

definition response_ok :: "Response \<Rightarrow> bool" where
  \<comment> \<open>\<open>response.ok\<close>\<close>
  "response_ok r = (200 \<le> status r \<and> status r \<le> 299)"

definition POST_verdict :: "Response \<Rightarrow> Verdict" where
  "POST_verdict response =
     (let contentType = headers response ''content-type'';
          found = (response_ok response \<and> isMarkdownContentType contentType)
      in \<lparr>found = found,
          reason =
            (if found
               then ''Markdown detected: 2xx response with Content-Type text/markdown.''
             else if status response \<ge> 300 \<and> status response < 400
               then ''Redirect response received and redirects are intentionally disabled.''
             else if \<not> response_ok response
               then ''Target returned a non-2xx status.''
             else ''Target ignored markdown negotiation or returned a different content type.'')\<rparr>)"

subsection \<open>\<open>TextDecoder\<close> for UTF-8\<close>

text \<open>
  \<open>TextDecoder\<close> belongs to the platform. It is modelled from the UTF-8 decoder
  of the WHATWG Encoding standard, in its replacement error mode: the state
  between two bytes is the code point under construction, the bytes seen and
  needed, and the bounds of the next byte; a byte that cannot continue a
  sequence gives U+FFFD and is read again as the start of a sequence; the
  first code point of the stream is dropped when it is the byte order mark.
\<close>

record utf8_decoder =
  code_point :: nat
  bytes_seen :: nat
  bytes_needed :: nat
  lower_boundary :: nat
  upper_boundary :: nat
  bom_seen :: bool

definition decoder_init :: utf8_decoder where
  "decoder_init =
     \<lparr>code_point = 0, bytes_seen = 0, bytes_needed = 0,
      lower_boundary = 0x80, upper_boundary = 0xBF, bom_seen = False\<rparr>"

definition decoder_reset :: "utf8_decoder \<Rightarrow> utf8_decoder" where
  "decoder_reset d =
     d\<lparr>code_point := 0, bytes_seen := 0, bytes_needed := 0,
       lower_boundary := 0x80, upper_boundary := 0xBF\<rparr>"

definition utf8_lead :: "utf8_decoder \<Rightarrow> nat \<Rightarrow> utf8_decoder \<times> nat list" where
  \<comment> \<open>a byte read when no sequence is open; the code points it gives\<close>
  "utf8_lead d b =
     (if b \<le> 0x7F then (d, [b])
      else if 0xC2 \<le> b \<and> b \<le> 0xDF
        then (d\<lparr>bytes_needed := 1, code_point := b mod 32\<rparr>, [])
      else if 0xE0 \<le> b \<and> b \<le> 0xEF
        then (d\<lparr>lower_boundary := (if b = 0xE0 then 0xA0 else lower_boundary d),
                upper_boundary := (if b = 0xED then 0x9F else upper_boundary d),
                bytes_needed := 2, code_point := b mod 16\<rparr>, [])
      else if 0xF0 \<le> b \<and> b \<le> 0xF4
        then (d\<lparr>lower_boundary := (if b = 0xF0 then 0x90 else lower_boundary d),
                upper_boundary := (if b = 0xF4 then 0x8F else upper_boundary d),
                bytes_needed := 3, code_point := b mod 8\<rparr>, [])
      else (d, [0xFFFD]))"

definition utf8_byte :: "utf8_decoder \<Rightarrow> nat \<Rightarrow> utf8_decoder \<times> nat list" where
  "utf8_byte d b =
     (if bytes_needed d = 0 then utf8_lead d b
      else if \<not> (lower_boundary d \<le> b \<and> b \<le> upper_boundary d)
        then (let (d', out) = utf8_lead (decoder_reset d) b in (d', 0xFFFD # out))
      else
        (let cp = code_point d * 64 + b mod 64; seen = bytes_seen d + 1 in
         if seen \<noteq> bytes_needed d
         then (d\<lparr>lower_boundary := 0x80, upper_boundary := 0xBF,
                 code_point := cp, bytes_seen := seen\<rparr>, [])
         else (decoder_reset d, [cp])))"

definition code_units :: "nat \<Rightarrow> jsstring" where
  \<comment> \<open>a code point as UTF-16: itself, or a surrogate pair above U+FFFF\<close>
  "code_units cp =
     (if cp < 0x10000 then [of_nat cp]
      else [of_nat (0xD800 + (cp - 0x10000) div 0x400),
            of_nat (0xDC00 + (cp - 0x10000) mod 0x400)])"

fun emit :: "utf8_decoder \<Rightarrow> nat list \<Rightarrow> utf8_decoder \<times> jsstring" where
  \<comment> \<open>the decoded code points as text; the first one of the stream is dropped
      when it is U+FEFF\<close>
  "emit d [] = (d, [])"
| "emit d (cp # cps) =
     (if \<not> bom_seen d \<and> cp = 0xFEFF then emit (d\<lparr>bom_seen := True\<rparr>) cps
      else (let (d', out) = emit (d\<lparr>bom_seen := True\<rparr>) cps in (d', code_units cp @ out)))"

fun decode_stream :: "utf8_decoder \<Rightarrow> byte list \<Rightarrow> utf8_decoder \<times> jsstring" where
  \<comment> \<open>\<open>decoder.decode(value, {stream: true})\<close>\<close>
  "decode_stream d [] = (d, [])"
| "decode_stream d (b # bs) =
     (let (d1, cps) = utf8_byte d (unat b);
          (d2, out) = emit d1 cps;
          (d3, out') = decode_stream d2 bs
      in (d3, out @ out'))"

definition decode_flush :: "utf8_decoder \<Rightarrow> jsstring" where
  \<comment> \<open>\<open>decoder.decode()\<close>: the end of the stream; an open sequence gives U+FFFD\<close>
  "decode_flush d = (if bytes_needed d \<noteq> 0 then snd (emit d [0xFFFD]) else [])"

definition stream_text :: "byte list \<Rightarrow> jsstring" where
  \<comment> \<open>\<open>new TextDecoder().decode(bytes)\<close>: one decoder, the bytes and the end of the
      stream\<close>
  "stream_text bytes =
     (let (d, out) = decode_stream decoder_init bytes in out @ decode_flush d)"

definition strip_bom :: "byte list \<Rightarrow> byte list" where
  "strip_bom bytes = (if take 3 bytes = [0xEF, 0xBB, 0xBF] then drop 3 bytes else bytes)"

text \<open>
  \<open>response.text()\<close> belongs to the platform too. It is modelled from the
  implementation of Node.js 22: the body is collected, the three bytes
  EF BB BF are removed from its start when it begins with them (``UTF-8 decode''
  of the Encoding standard), and the rest is given to a \<open>TextDecoder\<close>, which
  drops a byte order mark of its own. A body that begins with two byte order
  marks therefore loses both, where the decoder of \<open>readTextLimited\<close> drops
  one.
\<close>

definition response_text :: "byte list \<Rightarrow> jsstring" where
  \<comment> \<open>\<open>response.text()\<close>: the whole body decoded at once\<close>
  "response_text bytes = stream_text (strip_bom bytes)"

subsection \<open>\<open>readTextLimited\<close>\<close>

record LimitedText =
  text_limited :: jsstring
  truncated :: bool

fun read_loop ::
  "nat \<Rightarrow> utf8_decoder \<Rightarrow> jsstring \<Rightarrow> byte list list \<Rightarrow> error option
     \<Rightarrow> error + (utf8_decoder \<times> jsstring \<times> bool)" where
  \<comment> \<open>the \<open>while (true)\<close> loop: the decoder, the text and the flag when it is left\<close>
  "read_loop limitChars d txt [] fin =
     (case fin of Some e \<Rightarrow> Inl e | None \<Rightarrow> Inr (d, txt, False))"
| "read_loop limitChars d txt (chunk # chunks) fin =
     (let (d', out) = decode_stream d chunk; txt' = txt @ out in
      if length txt' > limitChars then Inr (d', take limitChars txt', True)
      else read_loop limitChars d' txt' chunks fin)"

definition readTextLimited :: "body_source \<Rightarrow> nat \<Rightarrow> error + LimitedText" where
  "readTextLimited src limitChars =
     (case src of
        NoReader bytes \<Rightarrow>
          (let fallback = response_text bytes in
           Inr \<lparr>text_limited = take limitChars fallback, truncated = (length fallback > limitChars)\<rparr>)
      | Reader chunks fin \<Rightarrow>
          (case read_loop limitChars decoder_init [] chunks fin of
             Inl e \<Rightarrow> Inl e
           | Inr (d, txt, trunc) \<Rightarrow> Inr \<lparr>text_limited = txt @ decode_flush d, truncated = trunc\<rparr>))"

definition MAX_MARKDOWN_CHARS :: nat where
  "MAX_MARKDOWN_CHARS = 50000"

subsection \<open>Failures of the probe stage\<close>

record FailureResponse =
  http_status :: nat
  error_text :: string
  details :: string

definition isTimeout :: "error \<Rightarrow> bool" where
  "isTimeout e =
     (case e of
        Error n m \<Rightarrow>
          n = ''TimeoutError'' \<or> n = ''AbortError'' \<or> js_includes (toLowerCase m) ''timeout''
      | NonError _ \<Rightarrow> False)"

definition probe_failure :: "error \<Rightarrow> FailureResponse" where
  \<comment> \<open>the \<open>catch\<close> block around the fetch, the classification and the body read\<close>
  "probe_failure e =
     \<lparr>http_status = (if isTimeout e then 504 else 502),
      error_text = (if isTimeout e then ''Request timed out after 10 seconds.''
                    else ''Failed to fetch target URL.''),
      details = (case e of Error n m \<Rightarrow> m | NonError t \<Rightarrow> t)\<rparr>"

section \<open>Notions of the specification\<close>

definition is_local_name :: "string \<Rightarrow> bool" where
  \<comment> \<open>\<open>localhost\<close> or a name under \<open>.local\<close>, compared without case\<close>
  "is_local_name hostname =
     (toLowerCase hostname = ''localhost'' \<or> endsWith (toLowerCase hostname) ''.local'')"





definition timeout_mechanism :: "error \<Rightarrow> bool" where
  \<comment> \<open>the abort that \<open>AbortSignal.timeout\<close> raises: an error named \<open>TimeoutError\<close>\<close>
  "timeout_mechanism e = (case e of Error n m \<Rightarrow> n = ''TimeoutError'' | NonError _ \<Rightarrow> False)"

definition bucket_of :: "store \<Rightarrow> string \<Rightarrow> int list" where
  \<comment> \<open>\<open>store.get(identifier) ?? []\<close>: the timestamps counted for an identifier\<close>
  "bucket_of store identifier = (case store identifier of Some b \<Rightarrow> b | None \<Rightarrow> [])"

definition oldest_exit :: "int list \<Rightarrow> int" where
  \<comment> \<open>the time at which the oldest of the counted events leaves the window\<close>
  "oldest_exit counted = Min (set counted) + WINDOW_MS"

definition same_identifier :: "string \<Rightarrow> int list \<Rightarrow> (string \<times> int) list" where
  \<comment> \<open>calls of one identifier at the given times\<close>
  "same_identifier identifier ts = map (\<lambda>t. (identifier, t)) ts"

definition is_control16 :: "16 word \<Rightarrow> bool" where
  \<comment> \<open>the control characters of Unicode (category Cc)\<close>
  "is_control16 c = (c \<le> 0x1F \<or> (0x7F \<le> c \<and> c \<le> 0x9F))"

section \<open>Target safety: resolved host names\<close>

lemma check_records_private:
  "\<exists>r\<in>set rs. isPrivateIp (address r) \<Longrightarrow>
   check_records rs = Inl (new_Error ''Resolved to a private IP range, request blocked.'')"
  by (induction rs) auto

lemma check_records_safe:
  "(check_records rs = Inr ()) = (\<forall>r\<in>set rs. \<not> isPrivateIp (address r))"
  by (induction rs) auto

text \<open>
  Claim C1. Let the host name be no IP literal. Then \<open>assertSafeTarget\<close> returns
  normally exactly when the name is not a local one and the lookup delivers a
  non-empty list of records every one of which is classified safe. Whenever
  one record of the list is classified private, whatever the others are, it
  fails with the private-network error, and on an empty list it fails with the
  resolution error.
\<close>

theorem assertSafeTarget_resolved_all_or_nothing:
  assumes "isIP (toLowerCase hostname) = 0"
  shows "(assertSafeTarget lookup hostname = Inr () \<longleftrightarrow>
            \<not> is_local_name hostname \<and>
            (\<exists>records. lookup (toLowerCase hostname) = Inr records \<and> records \<noteq> [] \<and>
               (\<forall>r\<in>set records. \<not> isPrivateIp (address r)))) \<and>
         (\<forall>records. \<not> is_local_name hostname \<and>
              lookup (toLowerCase hostname) = Inr records \<and>
              (\<exists>r\<in>set records. isPrivateIp (address r)) \<longrightarrow>
            assertSafeTarget lookup hostname =
              Inl (new_Error ''Resolved to a private IP range, request blocked.'')) \<and>
         (\<not> is_local_name hostname \<and> lookup (toLowerCase hostname) = Inr [] \<longrightarrow>
            assertSafeTarget lookup hostname = Inl (new_Error ''Could not resolve hostname.''))"
proof (intro conjI allI impI)
  show "assertSafeTarget lookup hostname = Inr () \<longleftrightarrow>
            \<not> is_local_name hostname \<and>
            (\<exists>records. lookup (toLowerCase hostname) = Inr records \<and> records \<noteq> [] \<and>
               (\<forall>r\<in>set records. \<not> isPrivateIp (address r)))"
    using assms
    by (cases "lookup (toLowerCase hostname)")
       (auto simp: assertSafeTarget_def is_local_name_def Let_def check_records_safe)
next
  fix records
  assume a: "\<not> is_local_name hostname \<and>
              lookup (toLowerCase hostname) = Inr records \<and>
              (\<exists>r\<in>set records. isPrivateIp (address r))"
  then have "records \<noteq> []" by auto
  with a assms show "assertSafeTarget lookup hostname =
              Inl (new_Error ''Resolved to a private IP range, request blocked.'')"
    by (simp add: assertSafeTarget_def is_local_name_def Let_def check_records_private)
next
  assume "\<not> is_local_name hostname \<and> lookup (toLowerCase hostname) = Inr []"
  with assms show "assertSafeTarget lookup hostname = Inl (new_Error ''Could not resolve hostname.'')"
    by (simp add: assertSafeTarget_def is_local_name_def Let_def)
qed

theorem assertSafeTarget_resolved_witness:
  "isIP (toLowerCase ''Example.com'') = 0 \<and>
   assertSafeTarget
     (\<lambda>h. Inr [\<lparr>address = ''93.184.216.34'', family = 4\<rparr>, \<lparr>address = ''10.0.0.5'', family = 4\<rparr>])
     ''Example.com'' = Inl (new_Error ''Resolved to a private IP range, request blocked.'')"
proof -
  let ?lookup = "\<lambda>h::string. (Inr [\<lparr>address = ''93.184.216.34'', family = 4\<rparr>,
      \<lparr>address = ''10.0.0.5'', family = 4\<rparr>] :: error + LookupAddress list)"
  have h: "isIP (toLowerCase ''Example.com'') = 0" by code_simp
  have l: "\<not> is_local_name ''Example.com''" by code_simp
  have p: "isPrivateIp ''10.0.0.5''" by code_simp
  from assertSafeTarget_resolved_all_or_nothing [OF h, of ?lookup] l p
  have "assertSafeTarget ?lookup ''Example.com'' =
      Inl (new_Error ''Resolved to a private IP range, request blocked.'')"
    by simp
  with h show ?thesis by simp
qed

section \<open>The IPv4 classifier\<close>


















lemma split_on_nonempty: "split_on sep s \<noteq> []"
  by (induction s) auto






lemma split_on_chars: "c \<in> set s \<Longrightarrow> c = sep \<or> (\<exists>p\<in>set (split_on sep s). c \<in> set p)"
proof (induction s)
  case Nil
  then show ?case by simp
next
  case (Cons x xs)
  show ?case
  proof (cases "x = sep")
    case True
    with Cons show ?thesis by auto
  next
    case False
    obtain q qs where q: "split_on sep xs = q # qs"
      using split_on_nonempty [of sep xs] by (cases "split_on sep xs") auto
    with Cons False show ?thesis by auto
  qed
qed

lemma v4Seg_chars: "v4Seg p \<Longrightarrow> c \<in> set p \<Longrightarrow> is_digit c"
  by (induction p rule: v4Seg.induct) (auto simp: is_digit_def)

lemma isIPv4_chars:
  assumes "isIPv4 v" "c \<in> set v"
  shows "is_digit c \<or> c = CHR ''.''"
proof -
  from assms(1) obtain p1 p2 p3 p4 where p: "split_on CHR ''.'' v = [p1, p2, p3, p4]"
    and s: "v4Seg p1" "v4Seg p2" "v4Seg p3" "v4Seg p4"
    unfolding isIPv4_def by (auto split: list.splits)
  from split_on_chars [OF assms(2), of "CHR ''.''"] p s show ?thesis
    by (auto dest: v4Seg_chars)
qed







section \<open>Substring tests\<close>

lemma startsWith_iff: "startsWith s p = (\<exists>post. s = p @ post)"
  by (induction s p rule: startsWith.induct) auto

lemma js_includes_iff: "js_includes s sub = (\<exists>pre post. s = pre @ sub @ post)"
proof (induction s)
  case Nil
  show ?case by auto
next
  case (Cons c cs)
  show ?case
  proof
    assume "js_includes (c # cs) sub"
    then consider "startsWith (c # cs) sub" | "js_includes cs sub" by auto
    then show "\<exists>pre post. c # cs = pre @ sub @ post"
    proof cases
      case 1
      then obtain post where "c # cs = sub @ post" by (auto simp: startsWith_iff)
      then have "c # cs = [] @ sub @ post" by simp
      then show ?thesis by blast
    next
      case 2
      with Cons obtain pre post where "cs = pre @ sub @ post" by auto
      then have "c # cs = (c # pre) @ sub @ post" by simp
      then show ?thesis by blast
    qed
  next
    assume "\<exists>pre post. c # cs = pre @ sub @ post"
    then obtain pre post where e: "c # cs = pre @ sub @ post" by auto
    show "js_includes (c # cs) sub"
    proof (cases pre)
      case Nil
      with e have "startsWith (c # cs) sub" by (auto simp: startsWith_iff)
      then show ?thesis by simp
    next
      case (Cons p ps)
      with e have "cs = ps @ sub @ post" by simp
      with Cons.IH have "js_includes cs sub" by auto
      then show ?thesis by simp
    qed
  qed
qed

section \<open>Target safety: literal addresses\<close>

lemma assertSafeTarget_literal_skips_lookup:
  "isIP (toLowerCase hostname) \<noteq> 0 \<Longrightarrow>
   assertSafeTarget lookup hostname = assertSafeTarget lookup' hostname"
  by (simp add: assertSafeTarget_def Let_def)

lemma endsWith_chars: "endsWith s p \<Longrightarrow> set p \<subseteq> set s"
proof -
  assume "endsWith s p"
  then obtain post where "rev s = rev p @ post" by (auto simp: endsWith_def startsWith_iff)
  then have "set (rev s) = set (rev p @ post)" by simp
  then show ?thesis by auto
qed

lemma toLowerCase_unchanged:
  "\<forall>c\<in>set s. is_digit c \<or> c \<in> set ''.:f'' \<Longrightarrow> toLowerCase s = s"
proof -
  have "toLowerChar c = c" if "is_digit c \<or> c \<in> set ''.:f''" for c
    using that by (auto simp: toLowerChar_def is_digit_def)
  then show "\<forall>c\<in>set s. is_digit c \<or> c \<in> set ''.:f'' \<Longrightarrow> toLowerCase s = s"
    by (simp add: toLowerCase_def map_idI)
qed

lemma literal_not_local:
  assumes "\<forall>c\<in>set s. is_digit c \<or> c \<in> set ''.:f''"
  shows "s \<noteq> ''localhost''" and "\<not> endsWith s ''.local''"
proof -
  have "\<not> (is_digit CHR ''l'' \<or> CHR ''l'' \<in> set ''.:f'')" by (simp add: is_digit_def)
  with assms have l: "CHR ''l'' \<notin> set s" by blast
  show "s \<noteq> ''localhost''"
  proof
    assume "s = ''localhost''"
    then have "CHR ''l'' \<in> set s" by simp
    with l show False by simp
  qed
  show "\<not> endsWith s ''.local''"
  proof
    assume "endsWith s ''.local''"
    then have "set ''.local'' \<subseteq> set s" by (rule endsWith_chars)
    then have "CHR ''l'' \<in> set s" by simp
    with l show False by simp
  qed
qed

lemma assertSafeTarget_ipv4_literal:
  assumes "isIPv4 h"
  shows "assertSafeTarget lookup h =
     (if isPrivateIPv4 h then Inl (new_Error ''Private IP ranges are blocked.'') else Inr ())"
proof -
  have c: "\<forall>c\<in>set h. is_digit c \<or> c \<in> set ''.:f''"
    using isIPv4_chars [OF assms] by auto
  have 4: "isIP h = 4" using assms by (simp add: isIP_def)
  then have p: "isPrivateIp h = isPrivateIPv4 h" by (simp add: isPrivateIp_def)
  show ?thesis
    unfolding assertSafeTarget_def Let_def toLowerCase_unchanged [OF c]
    using literal_not_local [OF c] 4 p by simp
qed

text \<open>
  The host of a URL is not the bare text of an IPv6 address. The URL standard
  serialises an IPv6 host between square brackets, so for \<open>http://[::1]/\<close>
  the value of \<open>url.hostname\<close> is \<open>[::1]\<close>. No text that begins with a
  bracket is an IP address for \<open>net.isIP\<close>.
\<close>

lemma split_on_head:
  "c \<noteq> sep \<Longrightarrow> split_on sep (c # s) = (c # hd (split_on sep s)) # tl (split_on sep s)"
  by simp

lemma v4Seg_bracket: "\<not> v4Seg (CHR ''['' # q)"
proof -
  have "\<not> is_digit CHR ''[''" by (simp add: is_digit_def)
  then show ?thesis
    by (cases q rule: v4Seg.cases) (simp_all add: is_digit_def)
qed

lemma v6Seg_bracket: "\<not> v6Seg (CHR ''['' # q)"
  by (simp add: v6Seg_def is_hex_digit_def)

lemma bracket_not_ipv4: "\<not> isIPv4 (CHR ''['' # s)"
  by (auto simp: isIPv4_def v4Seg_bracket split: list.splits)

lemma split_dcolon_head:
  assumes "split_dcolon (c # t) = Some (l, r)" "c \<noteq> CHR '':''"
  shows "\<exists>l'. l = c # l'"
  using assms by (cases t) auto

lemma bracket_not_v6Addr: "\<not> v6Addr (CHR ''['' # t)"
proof (cases "split_dcolon (CHR ''['' # t)")
  case None
  obtain q qs where g: "split_on CHR '':'' (CHR ''['' # t) = (CHR ''['' # q) # qs" by simp
  have 8: "\<not> list_all v6Seg ((CHR ''['' # q) # qs)" by (simp add: v6Seg_bracket)
  have 7: "length ((CHR ''['' # q) # qs) = 7 \<Longrightarrow> \<not> list_all v6Seg (butlast ((CHR ''['' # q) # qs))"
    by (cases qs) (simp_all add: v6Seg_bracket)
  show ?thesis unfolding v6Addr_def None g Let_def using 8 7 by auto
next
  case (Some p)
  obtain l r where p: "p = (l, r)" by (cases p)
  from Some p split_dcolon_head [of "CHR ''[''" t l r] obtain l' where l: "l = CHR ''['' # l'" by auto
  obtain q qs where g: "split_on CHR '':'' (CHR ''['' # l') = (CHR ''['' # q) # qs" by simp
  have "\<not> list_all v6Seg (v6Groups l)" unfolding l v6Groups_def g [simplified] by (simp add: v6Seg_bracket)
  then show ?thesis unfolding v6Addr_def Some p by (simp add: Let_def)
qed

lemma bracket_not_ipv6: "\<not> isIPv6 (CHR ''['' # s)"
proof -
  have "takeWhile (\<lambda>c. c \<noteq> CHR ''%'') (CHR ''['' # s) = CHR ''['' # takeWhile (\<lambda>c. c \<noteq> CHR ''%'') s"
    by simp
  then show ?thesis unfolding isIPv6_def Let_def by (simp only: bracket_not_v6Addr simp_thms)
qed

lemma isIP_bracket: "isIP (CHR ''['' # s) = 0"
  by (simp only: isIP_def bracket_not_ipv4 bracket_not_ipv6 if_False)

lemma toLowerCase_bracketed: "toLowerCase (''['' @ a @ '']'') = ''['' @ toLowerCase a @ '']''"
proof -
  have 1: "toLowerChar CHR ''['' = CHR ''[''" by code_simp
  have 2: "toLowerChar CHR '']'' = CHR '']''" by code_simp
  show ?thesis by (simp add: toLowerCase_def 1 2)
qed

lemma bracketed_not_local:
  "''['' @ a @ '']'' \<noteq> ''localhost''" "\<not> endsWith (''['' @ a @ '']'') ''.local''"
  by (simp_all add: endsWith_def)

lemma assertSafeTarget_bracketed:
  "assertSafeTarget lookup (''['' @ a @ '']'') =
     (case lookup (''['' @ toLowerCase a @ '']'') of
        Inl e \<Rightarrow> Inl e
      | Inr records \<Rightarrow>
          if length records = 0 then Inl (new_Error ''Could not resolve hostname.'')
          else check_records records)"
proof -
  have 0: "isIP (''['' @ toLowerCase a @ '']'') = 0" using isIP_bracket [of "toLowerCase a @ '']''"] by simp
  show ?thesis
    unfolding assertSafeTarget_def Let_def toLowerCase_bracketed
    using bracketed_not_local [of "toLowerCase a"] 0 by (simp del: append.simps)
qed

text \<open>
  Claim C2 at the URL \<open>http://[::1]/\<close>, and at every URL whose host is an IPv6
  literal, IPv4-mapped or not. The host name is the address between brackets,
  \<open>net.isIP\<close> gives 0 for it, and \<open>assertSafeTarget\<close> does not classify the
  literal: it hands the bracketed text to the DNS lookup, and its result is
  what the lookup path gives. With a resolver that knows no such name the
  outcome is the resolver's error, for the loopback literal and for the
  literal of a public address alike, although \<open>isPrivateIp\<close> classifies the
  bare text \<open>::1\<close> private and the bare text \<open>2620:fe::9\<close> safe.
  IPv4 literals are classified directly (lemma \<open>assertSafeTarget_ipv4_literal\<close>).
\<close>

theorem assertSafeTarget_ipv6_literal_lookup:
  "isIP (''['' @ a @ '']'') = 0 \<and>
   assertSafeTarget lookup (''['' @ a @ '']'') =
     (case lookup (''['' @ toLowerCase a @ '']'') of
        Inl e \<Rightarrow> Inl e
      | Inr records \<Rightarrow>
          if length records = 0 then Inl (new_Error ''Could not resolve hostname.'')
          else check_records records) \<and>
   isIP ''[::1]'' = 0 \<and>
   assertSafeTarget (\<lambda>h. Inl (Error ''Error'' (''getaddrinfo ENOTFOUND '' @ h))) ''[::1]'' =
     Inl (Error ''Error'' ''getaddrinfo ENOTFOUND [::1]'') \<and>
   assertSafeTarget (\<lambda>h. Inl (Error ''Error'' (''getaddrinfo ENOTFOUND '' @ h)))
       ''[2620:fe::9]'' =
     Inl (Error ''Error'' ''getaddrinfo ENOTFOUND [2620:fe::9]'') \<and>
   isIP ''::1'' = 6 \<and> isPrivateIp ''::1'' \<and>
   isIP ''2620:fe::9'' = 6 \<and> \<not> isPrivateIp ''2620:fe::9''"
proof -
  have 1: "isIP (''['' @ a @ '']'') = 0" using isIP_bracket [of "a @ '']''"] by simp
  note 2 = assertSafeTarget_bracketed [of lookup a]
  have 3: "isIP ''[::1]'' = 0" using isIP_bracket [of "''::1]''"] by simp
  have l1: "toLowerCase ''::1'' = ''::1''" by code_simp
  have l2: "toLowerCase ''2620:fe::9'' = ''2620:fe::9''" by code_simp
  have 4: "assertSafeTarget (\<lambda>h. Inl (Error ''Error'' (''getaddrinfo ENOTFOUND '' @ h))) ''[::1]'' =
     Inl (Error ''Error'' ''getaddrinfo ENOTFOUND [::1]'')"
    using assertSafeTarget_bracketed
      [of "\<lambda>h. Inl (Error ''Error'' (''getaddrinfo ENOTFOUND '' @ h))" "''::1''"]
    by (simp add: l1)
  have 5: "assertSafeTarget (\<lambda>h. Inl (Error ''Error'' (''getaddrinfo ENOTFOUND '' @ h)))
       ''[2620:fe::9]'' =
     Inl (Error ''Error'' ''getaddrinfo ENOTFOUND [2620:fe::9]'')"
    using assertSafeTarget_bracketed
      [of "\<lambda>h. Inl (Error ''Error'' (''getaddrinfo ENOTFOUND '' @ h))" "''2620:fe::9''"]
    by (simp add: l2)
  have 6: "isIP ''::1'' = 6" by code_simp
  have 7: "isPrivateIp ''::1''" by code_simp
  have 8: "isIP ''2620:fe::9'' = 6" by code_simp
  have 9: "\<not> isPrivateIp ''2620:fe::9''" by code_simp
  show ?thesis by (intro conjI 1 2 3 4 5 6 7 8 9)
qed

section \<open>The verdict\<close>

text \<open>
  Claim C4. The verdict is \<open>found\<close> exactly when the status lies in [200,300)
  and the lower-cased content type contains \<open>text/markdown\<close>; the reason is
  picked by the first rule that applies; two responses with the same status
  and the same content type get the same verdict; and whatever follows a
  \<open>text/markdown\<close> written in any case (a charset or another parameter) does not
  change a positive verdict.
\<close>

theorem POST_verdict_classification:
  "found (POST_verdict r) =
     (200 \<le> status r \<and> status r < 300 \<and>
      (\<exists>v pre post. headers r ''content-type'' = Some v \<and>
         toLowerCase v = pre @ ''text/markdown'' @ post)) \<and>
   reason (POST_verdict r) =
     (if found (POST_verdict r)
        then ''Markdown detected: 2xx response with Content-Type text/markdown.''
      else if 300 \<le> status r \<and> status r < 400
        then ''Redirect response received and redirects are intentionally disabled.''
      else if \<not> (200 \<le> status r \<and> status r < 300)
        then ''Target returned a non-2xx status.''
      else ''Target ignored markdown negotiation or returned a different content type.'') \<and>
   (\<forall>r'. status r' = status r \<and> headers r' ''content-type'' = headers r ''content-type''
      \<longrightarrow> POST_verdict r' = POST_verdict r) \<and>
   (\<forall>v p. 200 \<le> status r \<and> status r < 300 \<and> toLowerCase v = ''text/markdown'' \<and>
      headers r ''content-type'' = Some (v @ p) \<longrightarrow> found (POST_verdict r))"
proof -
  have ok: "response_ok r = (200 \<le> status r \<and> status r < 300)"
    by (auto simp: response_ok_def)
  have md: "isMarkdownContentType ct =
      (\<exists>v pre post. ct = Some v \<and> toLowerCase v = pre @ ''text/markdown'' @ post)" for ct
    by (cases ct) (auto simp: isMarkdownContentType_def js_includes_iff toLowerCase_def)
  have f: "found (POST_verdict r) =
     (200 \<le> status r \<and> status r < 300 \<and>
      (\<exists>v pre post. headers r ''content-type'' = Some v \<and>
         toLowerCase v = pre @ ''text/markdown'' @ post))"
    by (simp add: POST_verdict_def Let_def ok md)
  have rs: "reason (POST_verdict r) =
     (if found (POST_verdict r)
        then ''Markdown detected: 2xx response with Content-Type text/markdown.''
      else if 300 \<le> status r \<and> status r < 400
        then ''Redirect response received and redirects are intentionally disabled.''
      else if \<not> (200 \<le> status r \<and> status r < 300)
        then ''Target returned a non-2xx status.''
      else ''Target ignored markdown negotiation or returned a different content type.'')"
    by (simp add: POST_verdict_def Let_def ok)
  have dep: "\<forall>r'. status r' = status r \<and> headers r' ''content-type'' = headers r ''content-type''
      \<longrightarrow> POST_verdict r' = POST_verdict r"
  proof (intro allI impI)
    fix r' :: Response
    assume "status r' = status r \<and> headers r' ''content-type'' = headers r ''content-type''"
    then have "status r' = status r" "headers r' ''content-type'' = headers r ''content-type''"
      by simp_all
    then show "POST_verdict r' = POST_verdict r"
      by (simp add: POST_verdict_def Let_def response_ok_def)
  qed
  have par: "\<forall>v p. 200 \<le> status r \<and> status r < 300 \<and> toLowerCase v = ''text/markdown'' \<and>
      headers r ''content-type'' = Some (v @ p) \<longrightarrow> found (POST_verdict r)"
  proof (intro allI impI)
    fix v p
    assume a: "200 \<le> status r \<and> status r < 300 \<and> toLowerCase v = ''text/markdown'' \<and>
      headers r ''content-type'' = Some (v @ p)"
    then have "toLowerCase (v @ p) = [] @ ''text/markdown'' @ toLowerCase p"
      by (simp add: toLowerCase_def)
    with a show "found (POST_verdict r)" unfolding f by blast
  qed
  show ?thesis by (intro conjI f rs dep par)
qed

theorem POST_verdict_classification_witness:
  "found (POST_verdict \<lparr>status = 200, statusText = ''OK'',
      headers = (\<lambda>k. if k = ''content-type'' then Some ''Text/Markdown; charset=utf-8'' else None),
      body = NoReader []\<rparr>) \<and>
   reason (POST_verdict \<lparr>status = 200, statusText = ''OK'',
      headers = (\<lambda>k. if k = ''content-type'' then Some ''Text/Markdown; charset=utf-8'' else None),
      body = NoReader []\<rparr>) =
     ''Markdown detected: 2xx response with Content-Type text/markdown.''"
proof -
  let ?r = "\<lparr>status = 200, statusText = ''OK'',
      headers = (\<lambda>k. if k = ''content-type'' then Some ''Text/Markdown; charset=utf-8'' else None),
      body = NoReader []\<rparr>"
  note c = POST_verdict_classification [of ?r]
  have l: "toLowerCase ''Text/Markdown'' = ''text/markdown''" by code_simp
  have h: "200 \<le> status ?r \<and> status ?r < 300 \<and> toLowerCase ''Text/Markdown'' = ''text/markdown'' \<and>
      headers ?r ''content-type'' = Some (''Text/Markdown'' @ ''; charset=utf-8'')"
    using l by simp
  from c [THEN conjunct2, THEN conjunct2, THEN conjunct2, THEN spec, THEN spec, THEN mp, OF h]
  have f: "found (POST_verdict ?r)" .
  from c [THEN conjunct2, THEN conjunct1] f
  have "reason (POST_verdict ?r) =
     ''Markdown detected: 2xx response with Content-Type text/markdown.''"
    by simp
  with f show ?thesis by simp
qed

section \<open>Probe failures\<close>

text \<open>
  Claim C6, as the code has it. The failure response has status 504 exactly
  when the thrown value is an \<open>Error\<close> named \<open>TimeoutError\<close> or \<open>AbortError\<close>,
  or one whose message contains \<open>timeout\<close> in any case, and 502 otherwise; the
  abort of the timeout mechanism is among the former. In both cases \<open>details\<close>
  is the message of the error, or the rendering of a value that is no error.
\<close>

theorem probe_failure_status:
  "http_status (probe_failure e) =
     (if \<exists>n m. e = Error n m \<and>
           (n = ''TimeoutError'' \<or> n = ''AbortError'' \<or>
            (\<exists>pre post. toLowerCase m = pre @ ''timeout'' @ post))
      then 504 else 502) \<and>
   (timeout_mechanism e \<longrightarrow> http_status (probe_failure e) = 504) \<and>
   details (probe_failure e) = (case e of Error n m \<Rightarrow> m | NonError t \<Rightarrow> t)"
  by (cases e) (auto simp: probe_failure_def isTimeout_def timeout_mechanism_def js_includes_iff)

theorem probe_failure_status_witness:
  "timeout_mechanism (Error ''TimeoutError'' ''The operation was aborted due to timeout'') \<and>
   http_status (probe_failure (Error ''TimeoutError'' ''The operation was aborted due to timeout'')) = 504 \<and>
   details (probe_failure (Error ''TimeoutError'' ''The operation was aborted due to timeout'')) =
     ''The operation was aborted due to timeout''"
proof -
  let ?e = "Error ''TimeoutError'' ''The operation was aborted due to timeout''"
  have t: "timeout_mechanism ?e" by (simp add: timeout_mechanism_def)
  from probe_failure_status [of ?e, THEN conjunct2, THEN conjunct1, THEN mp, OF t]
  have s: "http_status (probe_failure ?e) = 504" .
  from probe_failure_status [of ?e, THEN conjunct2, THEN conjunct2]
  have d: "details (probe_failure ?e) = ''The operation was aborted due to timeout''" by simp
  show ?thesis by (intro conjI t s d)
qed

text \<open>
  A failure that the timeout mechanism did not raise, a failed lookup of a host whose
  name contains \<open>timeout\<close>, is answered with 504 all the same.
\<close>

theorem probe_failure_message_counterexample:
  "\<not> timeout_mechanism (Error ''Error'' ''getaddrinfo ENOTFOUND timeout.example'') \<and>
   http_status (probe_failure (Error ''Error'' ''getaddrinfo ENOTFOUND timeout.example'')) = 504"
proof -
  have a: "\<not> timeout_mechanism (Error ''Error'' ''getaddrinfo ENOTFOUND timeout.example'')"
    by (simp add: timeout_mechanism_def)
  have b: "http_status (probe_failure (Error ''Error'' ''getaddrinfo ENOTFOUND timeout.example'')) = 504"
    by code_simp
  show ?thesis by (intro conjI a b)
qed

section \<open>The fallback rate limiter\<close>

lemma enforce_fallback_cases:
  assumes "enforceRateLimit None now store identifier = (r, store')"
  defines "fresh \<equiv> filter (\<lambda>timestamp. now - timestamp \<le> WINDOW_MS) (bucket_of store identifier)"
  shows "(LIMIT \<le> length fresh \<and>
            r = \<lparr>success = False, limit = int LIMIT, remaining = 0, reset = fresh ! 0 + WINDOW_MS\<rparr> \<and>
            store' = store(identifier \<mapsto> fresh)) \<or>
         (length fresh < LIMIT \<and>
            r = \<lparr>success = True, limit = int LIMIT,
                 remaining = int LIMIT - int (length fresh) - 1, reset = now + WINDOW_MS\<rparr> \<and>
            store' = store(identifier \<mapsto> fresh @ [now]))"
  using assms
  by (auto simp: enforceRateLimit_def bucket_of_def Let_def LIMIT_def max_def split: if_splits)

lemma bucket_of_upd [simp]:
  "bucket_of (store(identifier \<mapsto> b)) identifier' =
     (if identifier' = identifier then b else bucket_of store identifier')"
  by (simp add: bucket_of_def)

lemma run_checks_append:
  "run_checks store (cs @ ds) =
     (let (rs, s1) = run_checks store cs; (rs', s2) = run_checks s1 ds in (rs @ rs', s2))"
  by (induction cs arbitrary: store) (auto simp: Let_def split: prod.splits)

lemma run_one_window:
  assumes "\<forall>t\<in>set (bucket_of store identifier) \<union> set ts. T \<le> t \<and> t \<le> T + WINDOW_MS"
    and "length (bucket_of store identifier) + length ts \<le> LIMIT"
  shows "(\<forall>r\<in>set (fst (run_checks store (same_identifier identifier ts))). success r) \<and>
         length (fst (run_checks store (same_identifier identifier ts))) = length ts \<and>
         bucket_of (snd (run_checks store (same_identifier identifier ts))) identifier =
           bucket_of store identifier @ ts"
  using assms
proof (induction ts arbitrary: store)
  case Nil
  show ?case by (simp add: same_identifier_def)
next
  case (Cons t ts)
  obtain r s1 where e: "enforceRateLimit None t store identifier = (r, s1)"
    by (cases "enforceRateLimit None t store identifier")
  let ?b = "bucket_of store identifier"
  have all: "filter (\<lambda>timestamp. t - timestamp \<le> WINDOW_MS) ?b = ?b"
  proof (rule filter_True, intro ballI)
    fix x assume "x \<in> set ?b"
    with Cons.prems(1) have "T \<le> x" and "t \<le> T + WINDOW_MS" by auto
    then show "t - x \<le> WINDOW_MS" by simp
  qed
  from Cons.prems(2) have lt: "length ?b < LIMIT" by simp
  from enforce_fallback_cases [OF e] all lt
  have r: "success r" and s1: "s1 = store(identifier \<mapsto> ?b @ [t])"
    by auto
  have b1: "bucket_of s1 identifier = ?b @ [t]" by (simp add: s1)
  have p1: "\<forall>x\<in>set (bucket_of s1 identifier) \<union> set ts. T \<le> x \<and> x \<le> T + WINDOW_MS"
    using Cons.prems(1) by (auto simp: b1)
  have p2: "length (bucket_of s1 identifier) + length ts \<le> LIMIT"
    using Cons.prems(2) by (simp add: b1)
  note ih = Cons.IH [OF p1 p2]
  obtain rs s2 where rc: "run_checks s1 (same_identifier identifier ts) = (rs, s2)"
    by (cases "run_checks s1 (same_identifier identifier ts)")
  have "run_checks store (same_identifier identifier (t # ts)) = (r # rs, s2)"
    by (simp add: same_identifier_def e rc [unfolded same_identifier_def])
  with ih rc r b1 show ?case by simp
qed

text \<open>
  Claim C8. On the fallback backend, for an identifier with no counted event:
  thirty checks at times within one window all succeed; a further check within
  that window is rejected with \<open>remaining = 0\<close>; and a check made when every
  counted event is older than the window succeeds again.
\<close>

theorem fallback_thirty_then_rejected:
  assumes "bucket_of store identifier = []"
    and "length ts = 30"
    and "\<forall>t\<in>set (ts @ [t31]). T \<le> t \<and> t \<le> T + WINDOW_MS"
    and "\<forall>t\<in>set ts. later - t > WINDOW_MS"
    and "run_checks store (same_identifier identifier ts) = (rs, s1)"
    and "enforceRateLimit None t31 s1 identifier = (r31, s2)"
    and "enforceRateLimit None later s2 identifier = (r, s3)"
  shows "length rs = 30 \<and> (\<forall>x\<in>set rs. success x) \<and>
         \<not> success r31 \<and> remaining r31 = 0 \<and> success r"
proof -
  have p1: "\<forall>t\<in>set (bucket_of store identifier) \<union> set ts. T \<le> t \<and> t \<le> T + WINDOW_MS"
    using assms(1,3) by simp
  have p2: "length (bucket_of store identifier) + length ts \<le> LIMIT"
    using assms(1,2) by (simp add: LIMIT_def)
  from run_one_window [OF p1 p2] assms(1,2,5)
  have rs: "length rs = 30" "\<forall>x\<in>set rs. success x" and b1: "bucket_of s1 identifier = ts"
    by simp_all
  have all: "filter (\<lambda>timestamp. t31 - timestamp \<le> WINDOW_MS) ts = ts"
  proof (rule filter_True, intro ballI)
    fix x assume "x \<in> set ts"
    with assms(3) have "T \<le> x" and "t31 \<le> T + WINDOW_MS" by auto
    then show "t31 - x \<le> WINDOW_MS" by simp
  qed
  from enforce_fallback_cases [OF assms(6)] all assms(2)
  have r31: "\<not> success r31" "remaining r31 = 0" and s2: "s2 = s1(identifier \<mapsto> ts)"
    by (auto simp: b1 LIMIT_def)
  have none: "filter (\<lambda>timestamp. later - timestamp \<le> WINDOW_MS) ts = []"
    using assms(4) by (auto simp: filter_empty_conv)
  from enforce_fallback_cases [OF assms(7)] none
  have "success r" by (auto simp: s2 LIMIT_def)
  with rs r31 show ?thesis by simp
qed

theorem fallback_thirty_then_rejected_witness:
  "length (fst (run_checks Map.empty (same_identifier ''203.0.113.7'' (map int [0..<30])))) = 30 \<and>
   \<not> success (fst (enforceRateLimit None 30
       (snd (run_checks Map.empty (same_identifier ''203.0.113.7'' (map int [0..<30]))))
       ''203.0.113.7'')) \<and>
   remaining (fst (enforceRateLimit None 30
       (snd (run_checks Map.empty (same_identifier ''203.0.113.7'' (map int [0..<30]))))
       ''203.0.113.7'')) = 0 \<and>
   success (fst (enforceRateLimit None 600030
       (snd (enforceRateLimit None 30
          (snd (run_checks Map.empty (same_identifier ''203.0.113.7'' (map int [0..<30]))))
          ''203.0.113.7''))
       ''203.0.113.7''))"
proof -
  let ?id = "''203.0.113.7''"
  let ?ts = "map int [0..<30]"
  let ?run = "run_checks Map.empty (same_identifier ?id ?ts)"
  let ?e31 = "enforceRateLimit None 30 (snd ?run) ?id"
  let ?el = "enforceRateLimit None 600030 (snd ?e31) ?id"
  have h1: "bucket_of Map.empty ?id = []" by (simp add: bucket_of_def)
  have h2: "length ?ts = 30" by simp
  have h3: "\<forall>t\<in>set (?ts @ [30]). 0 \<le> t \<and> t \<le> 0 + WINDOW_MS"
    by (auto simp: WINDOW_MS_def)
  have h4: "\<forall>t\<in>set ?ts. 600030 - t > WINDOW_MS"
    by (auto simp: WINDOW_MS_def)
  have h5: "?run = (fst ?run, snd ?run)" by simp
  have h6: "?e31 = (fst ?e31, snd ?e31)" by simp
  have h7: "?el = (fst ?el, snd ?el)" by simp
  from fallback_thirty_then_rejected [OF h1 h2 h3 h4 h5 h6 h7]
  show ?thesis by simp
qed

lemma hd_sorted_Min:
  fixes xs :: "int list"
  assumes "sorted xs" "xs \<noteq> []"
  shows "hd xs = Min (set xs)"
proof -
  from assms obtain y ys where xs: "xs = y # ys" by (cases xs) auto
  with assms have "\<forall>z\<in>set ys. y \<le> z" by simp
  then have "Min (set (y # ys)) = y" by (intro Min_eqI) auto
  with xs show ?thesis by simp
qed

lemma enforce_sorted:
  assumes "enforceRateLimit None now store identifier = (r, store')"
    and "\<forall>i. sorted (bucket_of store i) \<and> (\<forall>t\<in>set (bucket_of store i). t \<le> now)"
  shows "\<forall>i. sorted (bucket_of store' i) \<and> (\<forall>t\<in>set (bucket_of store' i). t \<le> now)"
proof -
  let ?fresh = "filter (\<lambda>timestamp. now - timestamp \<le> WINDOW_MS) (bucket_of store identifier)"
  from assms(2) have s: "sorted ?fresh" by (simp add: sorted_wrt_filter)
  from assms(2) have le: "\<forall>t\<in>set ?fresh. t \<le> now" by auto
  from s le have s': "sorted (?fresh @ [now])" by (simp add: sorted_append)
  show ?thesis
  proof (intro allI)
    fix i
    from enforce_fallback_cases [OF assms(1)]
    have b: "bucket_of store' i =
        (if i = identifier then (if success r then ?fresh @ [now] else ?fresh)
         else bucket_of store i)"
      by auto
    from assms(2) have o: "sorted (bucket_of store i)" "\<forall>t\<in>set (bucket_of store i). t \<le> now"
      by simp_all
    show "sorted (bucket_of store' i) \<and> (\<forall>t\<in>set (bucket_of store' i). t \<le> now)"
      unfolding b using s s' le o by simp
  qed
qed

lemma run_checks_sorted:
  assumes "sorted (map snd calls)"
    and "\<forall>i. sorted (bucket_of store i) \<and> (\<forall>t\<in>set (bucket_of store i). \<forall>c\<in>set calls. t \<le> snd c)"
  shows "\<forall>i. sorted (bucket_of (snd (run_checks store calls)) i)"
  using assms
proof (induction calls arbitrary: store)
  case Nil
  then show ?case by simp
next
  case (Cons c calls)
  obtain i t where c: "c = (i, t)" by (cases c)
  obtain r s1 where e: "enforceRateLimit None t store i = (r, s1)"
    by (cases "enforceRateLimit None t store i")
  from Cons.prems(2) have "\<forall>j. sorted (bucket_of store j) \<and> (\<forall>x\<in>set (bucket_of store j). x \<le> t)"
    by (simp add: c)
  from enforce_sorted [OF e this]
  have s1: "\<forall>j. sorted (bucket_of s1 j) \<and> (\<forall>x\<in>set (bucket_of s1 j). x \<le> t)" .
  from Cons.prems(1) have later: "\<forall>d\<in>set calls. t \<le> snd d" and so: "sorted (map snd calls)"
    by (auto simp: c)
  from s1 later have "\<forall>j. sorted (bucket_of s1 j) \<and>
      (\<forall>x\<in>set (bucket_of s1 j). \<forall>d\<in>set calls. x \<le> snd d)"
    by (meson order_trans)
  from Cons.IH [OF so this]
  have ih: "\<forall>j. sorted (bucket_of (snd (run_checks s1 calls)) j)" .
  obtain rs s2 where rc: "run_checks s1 calls = (rs, s2)" by (cases "run_checks s1 calls")
  with ih show ?case by (simp add: c e)
qed

lemma reachable_buckets_sorted:
  "sorted (map snd calls) \<Longrightarrow> sorted (bucket_of (snd (run_checks Map.empty calls)) i)"
  using run_checks_sorted [of calls Map.empty] by (simp add: bucket_of_def)

text \<open>
  Claim C7, as the code has it. A rejected call returns as \<open>reset\<close> the first
  counted timestamp plus the window, which is the time at which the oldest
  counted event leaves the window when the timestamps are stored in time
  order. An allowed call returns the time of the call plus the window: the
  time at which the event it has just recorded, the newest one, leaves the
  window.
\<close>

theorem fallback_reset_time:
  assumes "enforceRateLimit None now store identifier = (r, store')"
  shows "(success r \<longrightarrow>
            reset r = now + WINDOW_MS \<and> bucket_of store' identifier \<noteq> [] \<and>
            last (bucket_of store' identifier) = now) \<and>
         (\<not> success r \<longrightarrow>
            bucket_of store' identifier \<noteq> [] \<and>
            reset r = hd (bucket_of store' identifier) + WINDOW_MS \<and>
            (sorted (bucket_of store identifier) \<longrightarrow>
               reset r = oldest_exit (bucket_of store' identifier)))"
proof -
  let ?fresh = "filter (\<lambda>timestamp. now - timestamp \<le> WINDOW_MS) (bucket_of store identifier)"
  from enforce_fallback_cases [OF assms]
  consider
    (rejected) "LIMIT \<le> length ?fresh" "\<not> success r" "reset r = ?fresh ! 0 + WINDOW_MS"
      "store' = store(identifier \<mapsto> ?fresh)"
  | (allowed) "success r" "reset r = now + WINDOW_MS" "store' = store(identifier \<mapsto> ?fresh @ [now])"
    by auto
  then show ?thesis
  proof cases
    case rejected
    then have ne: "?fresh \<noteq> []" by (auto simp: LIMIT_def)
    then have h: "?fresh ! 0 = hd ?fresh" by (simp add: hd_conv_nth)
    have "sorted (bucket_of store identifier) \<Longrightarrow> hd ?fresh = Min (set ?fresh)"
      using ne by (intro hd_sorted_Min) (simp_all add: sorted_wrt_filter)
    with rejected ne h show ?thesis by (simp add: oldest_exit_def)
  next
    case allowed
    then show ?thesis by simp
  qed
qed

theorem fallback_reset_time_witness:
  "\<not> success (fst (enforceRateLimit None 31
       (snd (run_checks Map.empty (same_identifier ''a'' (map int [1..<31])))) ''a'')) \<and>
   reset (fst (enforceRateLimit None 31
       (snd (run_checks Map.empty (same_identifier ''a'' (map int [1..<31])))) ''a'')) =
     1 + WINDOW_MS"
proof -
  let ?ts = "map int [1..<31]"
  let ?run = "run_checks Map.empty (same_identifier ''a'' ?ts)"
  let ?e = "enforceRateLimit None 31 (snd ?run) ''a''"
  have p1: "\<forall>t\<in>set (bucket_of Map.empty ''a'') \<union> set ?ts. 0 \<le> t \<and> t \<le> 0 + WINDOW_MS"
    by (auto simp: bucket_of_def WINDOW_MS_def)
  have p2: "length (bucket_of Map.empty ''a'') + length ?ts \<le> LIMIT"
    by (simp add: bucket_of_def LIMIT_def)
  from run_one_window [OF p1 p2]
  have b: "bucket_of (snd ?run) ''a'' = ?ts" by (simp add: bucket_of_def)
  have f: "filter (\<lambda>timestamp. 31 - timestamp \<le> WINDOW_MS) ?ts = ?ts"
    by (rule filter_True) (auto simp: WINDOW_MS_def)
  have e: "?e = (fst ?e, snd ?e)" by simp
  from enforce_fallback_cases [OF e] b f
  have rej: "\<not> success (fst ?e)" and st: "snd ?e = (snd ?run)(''a'' \<mapsto> ?ts)"
    by (auto simp: LIMIT_def)
  have hd: "hd ?ts = 1" by (simp add: upt_conv_Cons)
  from fallback_reset_time [OF e] rej
  have "reset (fst ?e) = hd (bucket_of (snd ?e) ''a'') + WINDOW_MS" by blast
  with st hd have "reset (fst ?e) = 1 + WINDOW_MS" by simp
  with rej show ?thesis by simp
qed

text \<open>
  Two calls of one identifier at the times 1000 and 2000: the second is
  allowed and counts the events 1000 and 2000; the older one leaves the window
  at 601000, and the call returns 602000.
\<close>

theorem fallback_reset_allowed_counterexample:
  "success (fst (run_checks Map.empty [(''a'', 1000), (''a'', 2000)]) ! 1) \<and>
   reset (fst (run_checks Map.empty [(''a'', 1000), (''a'', 2000)]) ! 1) = 602000 \<and>
   bucket_of (snd (run_checks Map.empty [(''a'', 1000), (''a'', 2000)])) ''a'' = [1000, 2000] \<and>
   oldest_exit [1000, 2000] = 601000"
  by (simp add: enforceRateLimit_def Let_def LIMIT_def WINDOW_MS_def bucket_of_def oldest_exit_def)

lemma enforce_bucket_bound:
  assumes "enforceRateLimit None now store identifier = (r, store')"
    and "\<forall>i. length (bucket_of store i) \<le> LIMIT"
  shows "\<forall>i. length (bucket_of store' i) \<le> LIMIT"
proof -
  let ?fresh = "filter (\<lambda>timestamp. now - timestamp \<le> WINDOW_MS) (bucket_of store identifier)"
  have "length ?fresh \<le> length (bucket_of store identifier)" by simp
  with assms(2) have le: "length ?fresh \<le> LIMIT" using le_trans by blast
  from enforce_fallback_cases [OF assms(1)] le assms(2) show ?thesis by auto
qed

lemma run_checks_bucket_bound:
  assumes "\<forall>i. length (bucket_of store i) \<le> LIMIT"
  shows "\<forall>i. length (bucket_of (snd (run_checks store calls)) i) \<le> LIMIT"
  using assms
proof (induction calls arbitrary: store)
  case Nil
  then show ?case by simp
next
  case (Cons c calls)
  obtain i t where c: "c = (i, t)" by (cases c)
  obtain r s1 where e: "enforceRateLimit None t store i = (r, s1)"
    by (cases "enforceRateLimit None t store i")
  from enforce_bucket_bound [OF e Cons.prems]
  have "\<forall>i. length (bucket_of s1 i) \<le> LIMIT" .
  from Cons.IH [OF this]
  have ih: "\<forall>i. length (bucket_of (snd (run_checks s1 calls)) i) \<le> LIMIT" .
  obtain rs s2 where rc: "run_checks s1 calls = (rs, s2)" by (cases "run_checks s1 calls")
  with ih show ?case by (simp add: c e)
qed

text \<open>
  Claim C10. In every state that calls of the fallback limiter reach from the
  empty store, a call leaves at most \<open>LIMIT\<close> timestamps for the identifier it
  was asked about, each of them no older than the window; when no stored
  timestamp lies in the future they all lie in the trailing window. A rejected
  call stores the old timestamps that are still in the window and nothing
  else.
\<close>

theorem fallback_bucket_invariant:
  assumes "store = snd (run_checks Map.empty calls)"
    and "enforceRateLimit None now store identifier = (r, store')"
  shows "length (bucket_of store' identifier) \<le> LIMIT \<and>
         (\<forall>t\<in>set (bucket_of store' identifier). now - t \<le> WINDOW_MS) \<and>
         ((\<forall>t\<in>set (bucket_of store identifier). t \<le> now) \<longrightarrow>
            (\<forall>t\<in>set (bucket_of store' identifier). now - WINDOW_MS \<le> t \<and> t \<le> now)) \<and>
         (\<not> success r \<longrightarrow>
            bucket_of store' identifier =
              filter (\<lambda>t. now - t \<le> WINDOW_MS) (bucket_of store identifier))"
proof -
  have "\<forall>i. length (bucket_of Map.empty i) \<le> LIMIT" by (simp add: bucket_of_def)
  from run_checks_bucket_bound [OF this, of calls] assms(1)
  have inv: "\<forall>i. length (bucket_of store i) \<le> LIMIT" by simp
  from enforce_bucket_bound [OF assms(2) inv]
  have 1: "length (bucket_of store' identifier) \<le> LIMIT" by simp
  have w: "0 \<le> WINDOW_MS" by (simp add: WINDOW_MS_def)
  from enforce_fallback_cases [OF assms(2)] w
  have 2: "\<forall>t\<in>set (bucket_of store' identifier). now - t \<le> WINDOW_MS" by auto
  from enforce_fallback_cases [OF assms(2)] w
  have 3: "(\<forall>t\<in>set (bucket_of store identifier). t \<le> now) \<longrightarrow>
            (\<forall>t\<in>set (bucket_of store' identifier). now - WINDOW_MS \<le> t \<and> t \<le> now)"
    by auto
  from enforce_fallback_cases [OF assms(2)]
  have 4: "\<not> success r \<longrightarrow>
            bucket_of store' identifier =
              filter (\<lambda>t. now - t \<le> WINDOW_MS) (bucket_of store identifier)"
    by auto
  show ?thesis by (intro conjI 1 2 3 4)
qed

theorem fallback_bucket_invariant_witness:
  "length (bucket_of (snd (enforceRateLimit None 31
       (snd (run_checks Map.empty (same_identifier ''a'' (map int [1..<31])))) ''a'')) ''a'') \<le> LIMIT \<and>
   \<not> success (fst (enforceRateLimit None 31
       (snd (run_checks Map.empty (same_identifier ''a'' (map int [1..<31])))) ''a'')) \<and>
   bucket_of (snd (enforceRateLimit None 31
       (snd (run_checks Map.empty (same_identifier ''a'' (map int [1..<31])))) ''a'')) ''a'' =
     map int [1..<31]"
proof -
  let ?ts = "map int [1..<31]"
  let ?run = "run_checks Map.empty (same_identifier ''a'' ?ts)"
  let ?e = "enforceRateLimit None 31 (snd ?run) ''a''"
  have p1: "\<forall>t\<in>set (bucket_of Map.empty ''a'') \<union> set ?ts. 0 \<le> t \<and> t \<le> 0 + WINDOW_MS"
    by (auto simp: bucket_of_def WINDOW_MS_def)
  have p2: "length (bucket_of Map.empty ''a'') + length ?ts \<le> LIMIT"
    by (simp add: bucket_of_def LIMIT_def)
  from run_one_window [OF p1 p2]
  have b: "bucket_of (snd ?run) ''a'' = ?ts" by (simp add: bucket_of_def)
  have f: "filter (\<lambda>timestamp. 31 - timestamp \<le> WINDOW_MS) ?ts = ?ts"
    by (rule filter_True) (auto simp: WINDOW_MS_def)
  have e: "?e = (fst ?e, snd ?e)" by simp
  from enforce_fallback_cases [OF e] b f
  have rej: "\<not> success (fst ?e)" by (auto simp: LIMIT_def)
  note inv = fallback_bucket_invariant [OF refl e]
  from inv have 1: "length (bucket_of (snd ?e) ''a'') \<le> LIMIT" by (rule conjunct1)
  from inv rej have "bucket_of (snd ?e) ''a'' =
      filter (\<lambda>t. 31 - t \<le> WINDOW_MS) (bucket_of (snd ?run) ''a'')" by blast
  with b f have 2: "bucket_of (snd ?e) ''a'' = ?ts" by simp
  show ?thesis by (intro conjI 1 rej 2)
qed

section \<open>The user agent\<close>

lemma whitespace16_replace:
  "js_whitespace16 (if c = 0xD \<or> c = 0xA \<or> c = 0x9 then 0x20 else c) = js_whitespace16 c"
  by (auto simp: js_whitespace16_def)

lemma dropWhile_replace:
  "dropWhile js_whitespace16 (replace_crlftab s) = replace_crlftab (dropWhile js_whitespace16 s)"
  by (induction s) (auto simp: replace_crlftab_def js_whitespace16_def)

lemma replace_rev: "replace_crlftab (rev s) = rev (replace_crlftab s)"
  by (simp add: replace_crlftab_def rev_map)

lemma trim16_replace: "trim16 (replace_crlftab s) = replace_crlftab (trim16 s)"
  by (simp add: trim16_def dropWhile_replace replace_rev [symmetric])

lemma set_trim16: "set (trim16 s) \<subseteq> set s"
proof -
  have "set (dropWhile js_whitespace16 (rev (dropWhile js_whitespace16 s)))
      \<subseteq> set (rev (dropWhile js_whitespace16 s))"
    by (auto dest: set_dropWhileD)
  also have "\<dots> \<subseteq> set s" by (auto dest: set_dropWhileD)
  finally show ?thesis by (simp add: trim16_def)
qed

lemma replace_no_crlftab: "c \<in> set (replace_crlftab s) \<Longrightarrow> c \<noteq> 0xD \<and> c \<noteq> 0xA \<and> c \<noteq> 0x9"
  by (auto simp: replace_crlftab_def)

lemma default_user_agent_facts:
  "DEFAULT_USER_AGENT \<noteq> []" "length DEFAULT_USER_AGENT = 73"
  by (simp_all add: DEFAULT_USER_AGENT_def utf16_def)

lemma default_user_agent_clean:
  "\<forall>c\<in>set DEFAULT_USER_AGENT. c \<noteq> 0xD \<and> c \<noteq> 0xA \<and> c \<noteq> 0x9"
  by (simp add: DEFAULT_USER_AGENT_def utf16_def)

text \<open>
  Claim C9, as the code has it. The sanitised user agent is never empty and
  never longer than 220 code units, and it holds no carriage return, line feed
  or tab: each of them is replaced by a space, and the text is trimmed and
  cut. Absent input, and input that trimming leaves empty, give the default
  string.
\<close>

theorem sanitizeUserAgent_output:
  "sanitizeUserAgent input \<noteq> [] \<and>
   length (sanitizeUserAgent input) \<le> 220 \<and>
   (\<forall>c\<in>set (sanitizeUserAgent input). c \<noteq> 0xD \<and> c \<noteq> 0xA \<and> c \<noteq> 0x9) \<and>
   (input = None \<or> (\<exists>s. input = Some s \<and> trim16 s = []) \<longrightarrow>
      sanitizeUserAgent input = DEFAULT_USER_AGENT) \<and>
   (\<forall>s. input = Some s \<and> trim16 s \<noteq> [] \<longrightarrow>
      sanitizeUserAgent input = take 220 (trim16 (replace_crlftab s)))"
proof (cases "input = None \<or> (\<exists>s. input = Some s \<and> trim16 s = [])")
  case True
  then have d: "sanitizeUserAgent input = DEFAULT_USER_AGENT"
    by (auto simp: sanitizeUserAgent_def)
  have n: "\<forall>s. input = Some s \<and> trim16 s \<noteq> [] \<longrightarrow>
      sanitizeUserAgent input = take 220 (trim16 (replace_crlftab s))"
    using True by auto
  have 1: "sanitizeUserAgent input \<noteq> []" "length (sanitizeUserAgent input) \<le> 220"
    "\<forall>c\<in>set (sanitizeUserAgent input). c \<noteq> 0xD \<and> c \<noteq> 0xA \<and> c \<noteq> 0x9"
    unfolding d using default_user_agent_facts default_user_agent_clean by simp_all
  from d have 2: "input = None \<or> (\<exists>s. input = Some s \<and> trim16 s = []) \<longrightarrow>
      sanitizeUserAgent input = DEFAULT_USER_AGENT" by simp
  show ?thesis by (intro conjI 1 2 n)
next
  case False
  then obtain s where s: "input = Some s" "trim16 s \<noteq> []" by (cases input) auto
  then have ne: "s \<noteq> []" by (auto simp: trim16_def)
  let ?out = "take 220 (trim16 (replace_crlftab s))"
  from s ne have o: "sanitizeUserAgent input = ?out" by (simp add: sanitizeUserAgent_def)
  from s(2) have "replace_crlftab (trim16 s) \<noteq> []" by (simp add: replace_crlftab_def)
  then have "trim16 (replace_crlftab s) \<noteq> []" unfolding trim16_replace .
  then have 1: "?out \<noteq> []" by simp
  have 2: "length ?out \<le> 220" by simp
  have "set ?out \<subseteq> set (replace_crlftab s)"
    using set_take_subset set_trim16 by (rule subset_trans)
  then have 3: "\<forall>c\<in>set ?out. c \<noteq> 0xD \<and> c \<noteq> 0xA \<and> c \<noteq> 0x9"
    using replace_no_crlftab by blast
  from False have 4: "input = None \<or> (\<exists>s. input = Some s \<and> trim16 s = []) \<longrightarrow>
      sanitizeUserAgent input = DEFAULT_USER_AGENT" by blast
  from s o have 5: "\<forall>s. input = Some s \<and> trim16 s \<noteq> [] \<longrightarrow>
      sanitizeUserAgent input = take 220 (trim16 (replace_crlftab s))" by simp
  from 1 2 3 have 6: "sanitizeUserAgent input \<noteq> []" "length (sanitizeUserAgent input) \<le> 220"
    "\<forall>c\<in>set (sanitizeUserAgent input). c \<noteq> 0xD \<and> c \<noteq> 0xA \<and> c \<noteq> 0x9"
    unfolding o by simp_all
  show ?thesis by (intro conjI 6 4 5)
qed

theorem sanitizeUserAgent_output_witness:
  "sanitizeUserAgent None = DEFAULT_USER_AGENT \<and>
   trim16 [0x20, 0x61, 0xD, 0xA, 0x62, 0x9] \<noteq> [] \<and>
   sanitizeUserAgent (Some [0x20, 0x61, 0xD, 0xA, 0x62, 0x9]) = [0x61, 0x20, 0x20, 0x62]"
proof -
  have 1: "sanitizeUserAgent None = DEFAULT_USER_AGENT"
    using sanitizeUserAgent_output [of None] by simp
  have t: "trim16 [0x20, 0x61, 0xD, 0xA, 0x62, 0x9] \<noteq> []"
    by (simp add: trim16_def js_whitespace16_def)
  have r: "take 220 (trim16 (replace_crlftab [0x20, 0x61, 0xD, 0xA, 0x62, 0x9])) = [0x61, 0x20, 0x20, 0x62]"
    by (simp add: trim16_def js_whitespace16_def replace_crlftab_def)
  from sanitizeUserAgent_output [of "Some [0x20, 0x61, 0xD, 0xA, 0x62, 0x9]"] t
  have "sanitizeUserAgent (Some [0x20, 0x61, 0xD, 0xA, 0x62, 0x9]) =
      take 220 (trim16 (replace_crlftab [0x20, 0x61, 0xD, 0xA, 0x62, 0x9]))"
    by simp
  with r have 2: "sanitizeUserAgent (Some [0x20, 0x61, 0xD, 0xA, 0x62, 0x9]) = [0x61, 0x20, 0x20, 0x62]"
    by simp
  show ?thesis by (intro conjI 1 t 2)
qed

text \<open>
  The escape character U+001B is a control character, and the sanitiser keeps
  it.
\<close>

theorem sanitizeUserAgent_control_counterexample:
  "is_control16 0x1B \<and> sanitizeUserAgent (Some [0x61, 0x1B, 0x62]) = [0x61, 0x1B, 0x62]"
  by (simp add: is_control16_def sanitizeUserAgent_def trim16_def js_whitespace16_def
      replace_crlftab_def)

section \<open>The limited body reader\<close>

lemma decode_stream_append:
  "decode_stream d (xs @ ys) =
     (let (d1, o1) = decode_stream d xs; (d2, o2) = decode_stream d1 ys in (d2, o1 @ o2))"
  by (induction xs arbitrary: d) (auto simp: Let_def split: prod.splits)

lemma decode_ascii:
  assumes "bytes_needed d = 0"
  shows "decode_stream d (replicate n 0x61) =
           (if n = 0 then d else d\<lparr>bom_seen := True\<rparr>, replicate n 0x61)"
  using assms
proof (induction n arbitrary: d)
  case 0
  show ?case by simp
next
  case (Suc n)
  have b: "utf8_byte d 97 = (d, [97])"
    using Suc.prems by (simp add: utf8_byte_def utf8_lead_def)
  have e: "emit d [97] = (d\<lparr>bom_seen := True\<rparr>, [97])"
    by (simp add: code_units_def)
  have n: "bytes_needed (d\<lparr>bom_seen := True\<rparr>) = 0" using Suc.prems by simp
  show ?case by (simp add: b e Suc.IH [OF n] del: emit.simps)
qed

lemma decode_lead_byte:
  assumes "bytes_needed d = 0"
  shows "decode_stream d [0xC3] = (d\<lparr>bytes_needed := 1, code_point := 3\<rparr>, [])"
  using assms by (simp add: utf8_byte_def utf8_lead_def)

lemma flush_open_sequence:
  "bytes_needed d \<noteq> 0 \<Longrightarrow> decode_flush d = [0xFFFD]"
  by (simp add: decode_flush_def code_units_def)

lemma decode_partial_body:
  assumes "bytes_needed d = 0"
  shows "\<exists>d'. decode_stream d (replicate n 0x61 @ [0xC3]) = (d', replicate n 0x61) \<and>
              bytes_needed d' = 1"
proof -
  let ?d1 = "if n = 0 then d else d\<lparr>bom_seen := True\<rparr>"
  have n1: "bytes_needed ?d1 = 0" using assms by simp
  show ?thesis
    by (simp add: decode_stream_append decode_ascii [OF assms] decode_lead_byte [OF n1] del: decode_stream.simps)
qed

lemma read_partial_body_stream:
  "readTextLimited (Reader [replicate n 0x61 @ [0xC3]] None) n =
     Inr \<lparr>text_limited = replicate n 0x61 @ [0xFFFD], truncated = False\<rparr>"
proof -
  have "bytes_needed decoder_init = 0" by (simp add: decoder_init_def)
  from decode_partial_body [OF this, of n]
  obtain d' where d: "decode_stream decoder_init (replicate n 0x61 @ [0xC3]) = (d', replicate n 0x61)"
    and n: "bytes_needed d' = 1" by blast
  from n have f: "decode_flush d' = [0xFFFD]" by (simp add: flush_open_sequence)
  show ?thesis by (simp add: readTextLimited_def d f del: decode_stream.simps)
qed

lemma read_partial_body_fallback:
  "response_text (replicate n 0x61 @ [0xC3]) = replicate n 0x61 @ [0xFFFD] \<and>
   readTextLimited (NoReader (replicate n 0x61 @ [0xC3])) n =
     Inr \<lparr>text_limited = replicate n 0x61, truncated = True\<rparr>"
proof -
  have "bytes_needed decoder_init = 0" by (simp add: decoder_init_def)
  from decode_partial_body [OF this, of n]
  obtain d' where d: "decode_stream decoder_init (replicate n 0x61 @ [0xC3]) = (d', replicate n 0x61)"
    and n: "bytes_needed d' = 1" by blast
  from n have f: "decode_flush d' = [0xFFFD]" by (simp add: flush_open_sequence)
  have "take 3 (replicate n 0x61 @ [0xC3 :: byte]) \<noteq> [0xEF, 0xBB, 0xBF]"
    by (cases n) simp_all
  then have "strip_bom (replicate n 0x61 @ [0xC3]) = replicate n 0x61 @ [0xC3]"
    by (simp only: strip_bom_def if_False)
  then have t: "response_text (replicate n 0x61 @ [0xC3]) = replicate n 0x61 @ [0xFFFD]"
    by (simp add: response_text_def stream_text_def d f del: decode_stream.simps)
  show ?thesis by (simp add: readTextLimited_def t del: decode_stream.simps)
qed

lemma utf8_lead_bom: "bom_seen (fst (utf8_lead d b)) = bom_seen d"
  by (simp add: utf8_lead_def)

lemma decoder_reset_bom: "bom_seen (decoder_reset d) = bom_seen d"
  by (simp add: decoder_reset_def)

lemma utf8_byte_bom: "bom_seen (fst (utf8_byte d b)) = bom_seen d"
  by (simp add: utf8_byte_def Let_def case_prod_beta utf8_lead_bom decoder_reset_bom)

lemma code_units_nonempty: "code_units cp \<noteq> []"
  by (simp add: code_units_def)

lemma emit_bom: "bom_seen (fst (emit d cps)) = (bom_seen d \<or> cps \<noteq> [])"
  by (induction cps arbitrary: d) (auto simp: case_prod_beta)

lemma emit_needed: "bytes_needed (fst (emit d cps)) = bytes_needed d"
  by (induction cps arbitrary: d) (auto simp: case_prod_beta)

lemma emit_seen_nonempty: "bom_seen d \<Longrightarrow> cps \<noteq> [] \<Longrightarrow> snd (emit d cps) \<noteq> []"
  by (cases cps) (auto simp: case_prod_beta code_units_nonempty)

lemma decode_stream_bom:
  "bom_seen (fst (decode_stream d bs)) = (bom_seen d \<or> bom_seen (fst (decode_stream d bs)))"
  "snd (decode_stream d bs) \<noteq> [] \<Longrightarrow> bom_seen (fst (decode_stream d bs))"
  "bom_seen d \<Longrightarrow> bom_seen (fst (decode_stream d bs))"
proof -
  have m: "bom_seen d \<Longrightarrow> bom_seen (fst (decode_stream d bs))" for d bs
    by (induction bs arbitrary: d) (auto simp: case_prod_beta emit_bom utf8_byte_bom)
  show "bom_seen d \<Longrightarrow> bom_seen (fst (decode_stream d bs))" by (rule m)
  then show "bom_seen (fst (decode_stream d bs)) = (bom_seen d \<or> bom_seen (fst (decode_stream d bs)))"
    by auto
  show "snd (decode_stream d bs) \<noteq> [] \<Longrightarrow> bom_seen (fst (decode_stream d bs))"
  proof (induction bs arbitrary: d)
    case Nil
    then show ?case by simp
  next
    case (Cons b bs)
    let ?d1 = "fst (utf8_byte d (unat b))" and ?cps = "snd (utf8_byte d (unat b))"
    let ?d2 = "fst (emit ?d1 ?cps)" and ?out = "snd (emit ?d1 ?cps)"
    from Cons.prems have "?out \<noteq> [] \<or> snd (decode_stream ?d2 bs) \<noteq> []"
      by (simp add: case_prod_beta)
    then show ?case
    proof
      assume "?out \<noteq> []"
      then have "?cps \<noteq> []" by (cases ?cps) auto
      then have "bom_seen ?d2" by (simp add: emit_bom)
      then have "bom_seen (fst (decode_stream ?d2 bs))" by (rule m)
      then show ?thesis by (simp add: case_prod_beta)
    next
      assume "snd (decode_stream ?d2 bs) \<noteq> []"
      then have "bom_seen (fst (decode_stream ?d2 bs))" by (rule Cons.IH)
      then show ?thesis by (simp add: case_prod_beta)
    qed
  qed
qed

lemma open_sequence_step:
  assumes "bytes_needed d \<noteq> 0"
  shows "snd (utf8_byte d b) \<noteq> [] \<or> bytes_needed (fst (utf8_byte d b)) \<noteq> 0"
  using assms by (auto simp: utf8_byte_def Let_def case_prod_beta)

lemma open_sequence_silent:
  assumes "bytes_needed d \<noteq> 0" "bom_seen d" "snd (decode_stream d bs) = []"
  shows "bytes_needed (fst (decode_stream d bs)) \<noteq> 0"
  using assms
proof (induction bs arbitrary: d)
  case Nil
  then show ?case by simp
next
  case (Cons b bs)
  let ?d1 = "fst (utf8_byte d (unat b))" and ?cps = "snd (utf8_byte d (unat b))"
  let ?d2 = "fst (emit ?d1 ?cps)" and ?out = "snd (emit ?d1 ?cps)"
  from Cons.prems(3) have o: "?out = []" and r: "snd (decode_stream ?d2 bs) = []"
    by (simp_all add: case_prod_beta)
  have b1: "bom_seen ?d1" using Cons.prems(2) by (simp add: utf8_byte_bom)
  with o have "?cps = []" using emit_seen_nonempty by blast
  with open_sequence_step [OF Cons.prems(1), of "unat b"]
  have "bytes_needed ?d1 \<noteq> 0" by simp
  then have n2: "bytes_needed ?d2 \<noteq> 0" by (simp add: emit_needed)
  have b2: "bom_seen ?d2" using b1 by (simp add: emit_bom)
  from Cons.IH [OF n2 b2 r] show ?case by (simp add: case_prod_beta)
qed

lemma decode_stream_append_fst:
  "fst (decode_stream d (xs @ ys)) = fst (decode_stream (fst (decode_stream d xs)) ys)"
  by (simp add: decode_stream_append case_prod_beta del: decode_stream.simps)

lemma decode_stream_append_snd:
  "snd (decode_stream d (xs @ ys)) =
     snd (decode_stream d xs) @ snd (decode_stream (fst (decode_stream d xs)) ys)"
  by (simp add: decode_stream_append case_prod_beta del: decode_stream.simps)

lemma read_loop_result:
  assumes "length acc \<le> n"
  shows "\<exists>d' t' tr. read_loop n d acc cs None = Inr (d', t', tr) \<and>
     (\<not> tr \<longrightarrow> d' = fst (decode_stream d (concat cs)) \<and>
        t' = acc @ snd (decode_stream d (concat cs)) \<and> length t' \<le> n) \<and>
     (tr \<longrightarrow> (\<exists>pre post. cs = pre @ post \<and>
        d' = fst (decode_stream d (concat pre)) \<and>
        n < length (acc @ snd (decode_stream d (concat pre))) \<and>
        t' = take n (acc @ snd (decode_stream d (concat pre)))))"
  using assms
proof (induction cs arbitrary: d acc)
  case Nil
  then show ?case by (intro exI [of _ d] exI [of _ acc] exI [of _ False]) simp
next
  case (Cons c cs)
  let ?d1 = "fst (decode_stream d c)" and ?out = "snd (decode_stream d c)"
  show ?case
  proof (cases "n < length (acc @ ?out)")
    case True
    then have "read_loop n d acc (c # cs) None = Inr (?d1, take n (acc @ ?out), True)"
      by (simp add: case_prod_beta)
    moreover have "c # cs = [c] @ cs" by simp
    moreover have "concat [c] = c" by simp
    ultimately show ?thesis using True by (metis (no_types, lifting))
  next
    case False
    then have le: "length (acc @ ?out) \<le> n" by simp
    from False have step: "read_loop n d acc (c # cs) None = read_loop n ?d1 (acc @ ?out) cs None"
      by (simp add: case_prod_beta)
    from Cons.IH [OF le, of ?d1]
    obtain d' t' tr where r: "read_loop n ?d1 (acc @ ?out) cs None = Inr (d', t', tr)"
      and a: "\<not> tr \<longrightarrow> d' = fst (decode_stream ?d1 (concat cs)) \<and>
        t' = (acc @ ?out) @ snd (decode_stream ?d1 (concat cs)) \<and> length t' \<le> n"
      and b: "tr \<longrightarrow> (\<exists>pre post. cs = pre @ post \<and>
        d' = fst (decode_stream ?d1 (concat pre)) \<and>
        n < length ((acc @ ?out) @ snd (decode_stream ?d1 (concat pre))) \<and>
        t' = take n ((acc @ ?out) @ snd (decode_stream ?d1 (concat pre))))"
      by blast
    have a': "\<not> tr \<longrightarrow> d' = fst (decode_stream d (concat (c # cs))) \<and>
        t' = acc @ snd (decode_stream d (concat (c # cs))) \<and> length t' \<le> n"
      using a by (auto simp: decode_stream_append_fst decode_stream_append_snd)
    have b': "tr \<longrightarrow> (\<exists>pre post. c # cs = pre @ post \<and>
        d' = fst (decode_stream d (concat pre)) \<and>
        n < length (acc @ snd (decode_stream d (concat pre))) \<and>
        t' = take n (acc @ snd (decode_stream d (concat pre))))"
    proof
      assume tr
      with b obtain pre post where p: "cs = pre @ post"
        "d' = fst (decode_stream ?d1 (concat pre))"
        "n < length ((acc @ ?out) @ snd (decode_stream ?d1 (concat pre)))"
        "t' = take n ((acc @ ?out) @ snd (decode_stream ?d1 (concat pre)))"
        by blast
      have "c # cs = (c # pre) @ post" using p(1) by simp
      moreover have "d' = fst (decode_stream d (concat (c # pre)))"
        using p(2) by (simp add: decode_stream_append_fst)
      moreover have "n < length (acc @ snd (decode_stream d (concat (c # pre))))"
        using p(3) by (simp add: decode_stream_append_snd)
      moreover have "t' = take n (acc @ snd (decode_stream d (concat (c # pre))))"
        using p(4) by (simp add: decode_stream_append_snd)
      ultimately show "\<exists>pre post. c # cs = pre @ post \<and>
        d' = fst (decode_stream d (concat pre)) \<and>
        n < length (acc @ snd (decode_stream d (concat pre))) \<and>
        t' = take n (acc @ snd (decode_stream d (concat pre)))"
        by blast
    qed
    from step r have "read_loop n d acc (c # cs) None = Inr (d', t', tr)" by (simp only:)
    with a' b' show ?thesis by blast
  qed
qed

lemma read_from_start:
  "\<exists>d' t' tr. read_loop n decoder_init [] cs None = Inr (d', t', tr) \<and>
     (\<not> tr \<longrightarrow> d' = fst (decode_stream decoder_init (concat cs)) \<and>
        t' = snd (decode_stream decoder_init (concat cs)) \<and> length t' \<le> n) \<and>
     (tr \<longrightarrow> (\<exists>pre post. cs = pre @ post \<and>
        d' = fst (decode_stream decoder_init (concat pre)) \<and>
        n < length (snd (decode_stream decoder_init (concat pre))) \<and>
        t' = take n (snd (decode_stream decoder_init (concat pre)))))"
  using read_loop_result [of "[]" n decoder_init cs] by simp

lemma stream_text_split:
  "stream_text bytes =
     snd (decode_stream decoder_init bytes) @ decode_flush (fst (decode_stream decoder_init bytes))"
  by (simp add: stream_text_def case_prod_beta)

lemma response_text_plain:
  "take 3 bytes \<noteq> [0xEF, 0xBB, 0xBF] \<Longrightarrow> response_text bytes = stream_text bytes"
  by (simp add: response_text_def strip_bom_def)

text \<open>
  A body that begins with two byte order marks loses both without a reader and
  one when it is read from a stream.
\<close>

lemma response_text_two_marks:
  "response_text [0xEF, 0xBB, 0xBF, 0xEF, 0xBB, 0xBF, 0x61] = [0x61]"
  by (simp add: response_text_def strip_bom_def stream_text_def utf8_byte_def utf8_lead_def
      decoder_init_def decoder_reset_def decode_flush_def code_units_def Let_def)

lemma readTextLimited_two_marks:
  "readTextLimited (Reader [[0xEF, 0xBB, 0xBF, 0xEF, 0xBB, 0xBF, 0x61]] None) 10 =
     Inr \<lparr>text_limited = [0xFEFF, 0x61], truncated = False\<rparr>"
  by (simp add: readTextLimited_def utf8_byte_def utf8_lead_def
      decoder_init_def decoder_reset_def decode_flush_def code_units_def Let_def)

text \<open>
  Bodies that fit, and bodies one character too long that do not end inside a
  multi-byte sequence, are read from a stream as the specification says: the
  text is the one a single decoder gives for the whole body, cut at the
  ceiling.
\<close>

lemma readTextLimited_whole:
  assumes "length (stream_text (concat cs)) \<le> n"
  shows "readTextLimited (Reader cs None) n =
     Inr \<lparr>text_limited = stream_text (concat cs), truncated = False\<rparr>"
proof -
  let ?O = "snd (decode_stream decoder_init (concat cs))"
  from assms have O: "length ?O \<le> n" by (simp add: stream_text_split)
  from read_from_start [of n cs]
  obtain d' t' tr where r: "read_loop n decoder_init [] cs None = Inr (d', t', tr)"
    and a: "\<not> tr \<longrightarrow> d' = fst (decode_stream decoder_init (concat cs)) \<and>
        t' = ?O \<and> length t' \<le> n"
    and b: "tr \<longrightarrow> (\<exists>pre post. cs = pre @ post \<and>
        d' = fst (decode_stream decoder_init (concat pre)) \<and>
        n < length (snd (decode_stream decoder_init (concat pre))) \<and>
        t' = take n (snd (decode_stream decoder_init (concat pre))))"
    by blast
  have "\<not> tr"
  proof
    assume tr
    with b obtain pre post where p: "cs = pre @ post"
      "n < length (snd (decode_stream decoder_init (concat pre)))" by blast
    have "length (snd (decode_stream decoder_init (concat pre))) \<le> length ?O"
      by (simp add: p(1) decode_stream_append_snd)
    with p(2) O show False by simp
  qed
  with a r show ?thesis
    by (simp add: readTextLimited_def stream_text_split)
qed

lemma readTextLimited_one_over:
  assumes "length (stream_text (concat cs)) = n + 1"
    and "bytes_needed (fst (decode_stream decoder_init (concat cs))) = 0"
  shows "readTextLimited (Reader cs None) n =
     Inr \<lparr>text_limited = take n (stream_text (concat cs)), truncated = True\<rparr>"
proof -
  let ?O = "snd (decode_stream decoder_init (concat cs))"
  from assms(2) have t: "stream_text (concat cs) = ?O"
    by (simp add: stream_text_split decode_flush_def)
  with assms(1) have O: "length ?O = n + 1" by simp
  from read_from_start [of n cs]
  obtain d' t' tr where r: "read_loop n decoder_init [] cs None = Inr (d', t', tr)"
    and a: "\<not> tr \<longrightarrow> d' = fst (decode_stream decoder_init (concat cs)) \<and>
        t' = ?O \<and> length t' \<le> n"
    and b: "tr \<longrightarrow> (\<exists>pre post. cs = pre @ post \<and>
        d' = fst (decode_stream decoder_init (concat pre)) \<and>
        n < length (snd (decode_stream decoder_init (concat pre))) \<and>
        t' = take n (snd (decode_stream decoder_init (concat pre))))"
    by blast
  from a O have tr: tr by auto
  with b obtain pre post where p: "cs = pre @ post"
    "d' = fst (decode_stream decoder_init (concat pre))"
    "n < length (snd (decode_stream decoder_init (concat pre)))"
    "t' = take n (snd (decode_stream decoder_init (concat pre)))"
    by blast
  let ?P = "snd (decode_stream decoder_init (concat pre))"
  have split: "?O = ?P @ snd (decode_stream d' (concat post))"
    by (simp add: p(1,2) decode_stream_append_snd)
  with O have "length ?P + length (snd (decode_stream d' (concat post))) = n + 1" by simp
  with p(3) have "length (snd (decode_stream d' (concat post))) = 0" by linarith
  then have silent: "snd (decode_stream d' (concat post)) = []" by simp
  with split have same: "?P = ?O" by simp
  from p(3) have "?P \<noteq> []" by auto
  then have bom: "bom_seen d'" unfolding p(2) by (rule decode_stream_bom(2))
  have fin: "fst (decode_stream d' (concat post)) = fst (decode_stream decoder_init (concat cs))"
    by (simp add: p(1,2) decode_stream_append_fst)
  have "bytes_needed d' = 0"
  proof (rule ccontr)
    assume "bytes_needed d' \<noteq> 0"
    from open_sequence_silent [OF this bom silent] fin assms(2) show False by simp
  qed
  then have "decode_flush d' = []" by (simp add: decode_flush_def)
  with r tr p(4) same t show ?thesis by (simp add: readTextLimited_def)
qed

text \<open>
  Claim C5 at a body of 50,000 letters \<open>a\<close> followed by the single byte C3, the
  first byte of a two-byte sequence: decoded as a whole (\<open>response.text()\<close>) it
  has 50,001 characters, the last one U+FFFD. Read from a stream, the loop
  never sees more than 50,000 characters, and the final flush appends U+FFFD
  after the last check of the ceiling: the result has 50,001 characters and
  \<open>truncated = false\<close>. Without a reader the same body gives 50,000 characters
  and \<open>truncated = true\<close>.
\<close>

theorem readTextLimited_open_sequence_at_end:
  "length (response_text (replicate MAX_MARKDOWN_CHARS 0x61 @ [0xC3])) = 50001 \<and>
   readTextLimited (Reader [replicate MAX_MARKDOWN_CHARS 0x61 @ [0xC3]] None) MAX_MARKDOWN_CHARS =
     Inr \<lparr>text_limited = replicate MAX_MARKDOWN_CHARS 0x61 @ [0xFFFD], truncated = False\<rparr> \<and>
   length (replicate MAX_MARKDOWN_CHARS (0x61 :: 16 word) @ [0xFFFD]) = 50001 \<and>
   readTextLimited (NoReader (replicate MAX_MARKDOWN_CHARS 0x61 @ [0xC3])) MAX_MARKDOWN_CHARS =
     Inr \<lparr>text_limited = replicate MAX_MARKDOWN_CHARS 0x61, truncated = True\<rparr>"
proof -
  note f = read_partial_body_fallback [of MAX_MARKDOWN_CHARS]
  have "length (response_text (replicate MAX_MARKDOWN_CHARS 0x61 @ [0xC3])) =
      MAX_MARKDOWN_CHARS + 1"
    by (simp add: f [THEN conjunct1])
  then have 1: "length (response_text (replicate MAX_MARKDOWN_CHARS 0x61 @ [0xC3])) = 50001"
    by (simp add: MAX_MARKDOWN_CHARS_def)
  have 3: "length (replicate MAX_MARKDOWN_CHARS (0x61 :: 16 word) @ [0xFFFD]) = 50001"
    by (simp add: MAX_MARKDOWN_CHARS_def)
  show ?thesis
    by (intro conjI 1 3 read_partial_body_stream f [THEN conjunct2])
qed

end
